theory Spec2Isabelle
  imports Complex_Main
begin

section \<open>The checkers board of \<^verbatim>\<open>src/checkers/board.py\<close>\<close>

subsection \<open>Configuration and the Piece class\<close>

text \<open>
  Modelled from the spec: the constants of \<^verbatim>\<open>checkers/config.py\<close>, which is not among
  the sources. The spec fixes an 8 by 8 board and two enumerated player colours, the
  top one and the bottom one.
\<close>

datatype color = PLAYER_COLOR_TOP | PLAYER_COLOR_BOTTOM

definition ROWS :: int where
  "ROWS = 8"

definition COLS :: int where
  "COLS = 8"

text \<open>
  Modelled from the spec: the class \<^verbatim>\<open>Piece\<close> of \<^verbatim>\<open>checkers/piece.py\<close>, which is not
  among the sources. A piece has a position, a colour and a king flag; the constructor
  makes a piece that is not a king, \<^verbatim>\<open>move\<close> overwrites the position without any
  check, \<^verbatim>\<open>make_king\<close> sets the flag. The pixel centre is presentation only.
\<close>

record piece =
  row :: int
  col :: int
  color :: color
  king :: bool

definition Piece :: "int \<Rightarrow> int \<Rightarrow> color \<Rightarrow> piece" where
  "Piece r c clr = \<lparr>row = r, col = c, color = clr, king = False\<rparr>"

definition piece_move :: "piece \<Rightarrow> int \<Rightarrow> int \<Rightarrow> piece" where
  "piece_move p r c = p\<lparr>row := r, col := c\<rparr>"

definition make_king :: "piece \<Rightarrow> piece" where
  "make_king p = p\<lparr>king := True\<rparr>"

subsection \<open>Python lists and the state of a Board\<close>

text \<open>
  Piece objects are mutable and shared between the grid, the move maps and the callers,
  so they live in a store and are named by reference. A grid cell holds \<open>None\<close> for the
  source's \<^verbatim>\<open>0\<close> and \<open>Some p\<close> for the Piece object \<open>p\<close>.
\<close>

type_synonym ref = nat

type_synonym cell = "ref option"

type_synonym grid = "cell list list"

type_synonym moves = "(int \<times> int) \<rightharpoonup> ref list"

datatype error = IndexError | ValueError

record Board =
  objs :: "ref \<Rightarrow> piece"
  board :: grid
  red_left :: int
  white_left :: int
  red_kings :: int
  white_kings :: int

text \<open>
  Python's \<^verbatim>\<open>xs[i]\<close>: a negative index counts from the end, and an index outside
  \<open>-len \<dots> len - 1\<close> raises IndexError.
\<close>

definition py_index :: "'a list \<Rightarrow> int \<Rightarrow> error + nat" where
  "py_index xs i =
     (if 0 \<le> i \<and> i < int (length xs) then Inr (nat i)
      else if i < 0 \<and> - int (length xs) \<le> i then Inr (nat (int (length xs) + i))
      else Inl IndexError)"

definition getitem :: "'a list \<Rightarrow> int \<Rightarrow> error + 'a" where
  "getitem xs i = (case py_index xs i of Inl e \<Rightarrow> Inl e | Inr k \<Rightarrow> Inr (xs ! k))"

definition setitem :: "'a list \<Rightarrow> int \<Rightarrow> 'a \<Rightarrow> error + 'a list" where
  "setitem xs i v = (case py_index xs i of Inl e \<Rightarrow> Inl e | Inr k \<Rightarrow> Inr (xs[k := v]))"

text \<open>\<^verbatim>\<open>self.board[r][c]\<close> as an expression and as an assignment target.\<close>

definition get_cell :: "grid \<Rightarrow> int \<Rightarrow> int \<Rightarrow> error + cell" where
  "get_cell g r c = (case getitem g r of Inl e \<Rightarrow> Inl e | Inr rw \<Rightarrow> getitem rw c)"

definition set_cell :: "grid \<Rightarrow> int \<Rightarrow> int \<Rightarrow> cell \<Rightarrow> error + grid" where
  "set_cell g r c v =
     (case getitem g r of
        Inl e \<Rightarrow> Inl e
      | Inr rw \<Rightarrow> (case setitem rw c v of
                    Inl e \<Rightarrow> Inl e
                  | Inr rw' \<Rightarrow> setitem g r rw'))"

text \<open>
  The same read with every index checked against \<open>0 \<dots> len - 1\<close>: it fails where Python
  would wrap a negative index around. A traversal that runs through with this read has
  read the grid inside its bounds only.
\<close>

definition checked_cell :: "grid \<Rightarrow> int \<Rightarrow> int \<Rightarrow> error + cell" where
  "checked_cell g r c =
     (if 0 \<le> r \<and> r < int (length g) \<and> 0 \<le> c \<and> c < int (length (g ! nat r))
      then Inr (g ! nat r ! nat c) else Inl IndexError)"

subsection \<open>Directional traversal\<close>

text \<open>
  The number of rows still ahead of the row \<open>r\<close>: the loop moves \<open>r\<close> by \<open>step\<close>, and a
  continuation starts beyond \<open>r\<close> with a stop row clipped to the board.
\<close>

definition span :: "int \<Rightarrow> int \<Rightarrow> int \<Rightarrow> nat" where
  "span r stop step = (if 0 < step then nat (max stop ROWS - r) else nat (r - min stop 0))"

text \<open>
  \<^verbatim>\<open>_traverse_left\<close> and \<^verbatim>\<open>_traverse_right\<close>. The \<^verbatim>\<open>for r in range(start, stop, step)\<close>
  loop is the recursion on \<open>r\<close>: the function is the loop from the row \<open>r\<close> on, with the
  column \<open>left\<close> and the pending piece \<open>lst\<close> (the source's \<^verbatim>\<open>last\<close>) of that iteration.
  \<^verbatim>\<open>moves\<close> is empty until the iteration that ends the loop, so it is no loop state.
  \<^verbatim>\<open>range\<close> raises ValueError for a step of 0. The grid is reached through the read
  \<open>rd\<close> only, which stands for \<^verbatim>\<open>self.board[r][left]\<close>.
\<close>

function traverse_left_from ::
    "(int \<Rightarrow> int \<Rightarrow> error + cell) \<Rightarrow> (ref \<Rightarrow> piece) \<Rightarrow> int \<Rightarrow> int \<Rightarrow> int \<Rightarrow> color \<Rightarrow> int \<Rightarrow>
     ref list \<Rightarrow> ref list \<Rightarrow> error + moves"
  and traverse_right_from ::
    "(int \<Rightarrow> int \<Rightarrow> error + cell) \<Rightarrow> (ref \<Rightarrow> piece) \<Rightarrow> int \<Rightarrow> int \<Rightarrow> int \<Rightarrow> color \<Rightarrow> int \<Rightarrow>
     ref list \<Rightarrow> ref list \<Rightarrow> error + moves"
where
  "traverse_left_from rd h r stop step clr left skipped lst =
     (if step = 0 then Inl ValueError
      else if \<not> ((0 < step \<and> r < stop) \<or> (step < 0 \<and> stop < r)) then Inr Map.empty
      else if left < 0 then Inr Map.empty
      else case rd r left of
        Inl e \<Rightarrow> Inl e
      | Inr None \<Rightarrow>
          if skipped \<noteq> [] \<and> lst = [] then Inr Map.empty
          else
            let mvs = [(r, left) \<mapsto> (if skipped \<noteq> [] then lst @ skipped else lst)]
            in if lst \<noteq> [] then
                 let rw = (if step = - 1 then max (r - 3) 0 else min (r + 3) ROWS)
                 in case traverse_left_from rd h (r + step) rw step clr (left - 1) lst [] of
                      Inl e \<Rightarrow> Inl e
                    | Inr m1 \<Rightarrow>
                        (case traverse_right_from rd h (r + step) rw step clr (left + 1) lst [] of
                           Inl e \<Rightarrow> Inl e
                         | Inr m2 \<Rightarrow> Inr (mvs ++ m1 ++ m2))
               else Inr mvs
      | Inr (Some current) \<Rightarrow>
          if color (h current) = clr then Inr Map.empty
          else traverse_left_from rd h (r + step) stop step clr (left - 1) skipped [current])"
| "traverse_right_from rd h r stop step clr right skipped lst =
     (if step = 0 then Inl ValueError
      else if \<not> ((0 < step \<and> r < stop) \<or> (step < 0 \<and> stop < r)) then Inr Map.empty
      else if COLS \<le> right then Inr Map.empty
      else case rd r right of
        Inl e \<Rightarrow> Inl e
      | Inr None \<Rightarrow>
          if skipped \<noteq> [] \<and> lst = [] then Inr Map.empty
          else
            let mvs = [(r, right) \<mapsto> (if skipped \<noteq> [] then lst @ skipped else lst)]
            in if lst \<noteq> [] then
                 let rw = (if step = - 1 then max (r - 3) 0 else min (r + 3) ROWS)
                 in case traverse_left_from rd h (r + step) rw step clr (right - 1) lst [] of
                      Inl e \<Rightarrow> Inl e
                    | Inr m1 \<Rightarrow>
                        (case traverse_right_from rd h (r + step) rw step clr (right + 1) lst [] of
                           Inl e \<Rightarrow> Inl e
                         | Inr m2 \<Rightarrow> Inr (mvs ++ m1 ++ m2))
               else Inr mvs
      | Inr (Some current) \<Rightarrow>
          if color (h current) = clr then Inr Map.empty
          else traverse_right_from rd h (r + step) stop step clr (right + 1) skipped [current])"
  by pat_completeness auto

termination
  by (relation "measure (\<lambda>x. case x of
        Inl (rd, h, r, stop, step, clr, left, skipped, lst) \<Rightarrow> span r stop step
      | Inr (rd, h, r, stop, step, clr, right, skipped, lst) \<Rightarrow> span r stop step)")
     (auto simp: span_def ROWS_def)

declare traverse_left_from.simps [simp del]
declare traverse_right_from.simps [simp del]

text \<open>A call of \<^verbatim>\<open>_traverse_left\<close> or \<^verbatim>\<open>_traverse_right\<close> enters the loop with \<^verbatim>\<open>last = []\<close>.\<close>

definition traverse_left ::
    "(int \<Rightarrow> int \<Rightarrow> error + cell) \<Rightarrow> (ref \<Rightarrow> piece) \<Rightarrow> int \<Rightarrow> int \<Rightarrow> int \<Rightarrow> color \<Rightarrow> int \<Rightarrow>
     ref list \<Rightarrow> error + moves" where
  "traverse_left rd h start stop step clr left skipped =
     traverse_left_from rd h start stop step clr left skipped []"

definition traverse_right ::
    "(int \<Rightarrow> int \<Rightarrow> error + cell) \<Rightarrow> (ref \<Rightarrow> piece) \<Rightarrow> int \<Rightarrow> int \<Rightarrow> int \<Rightarrow> color \<Rightarrow> int \<Rightarrow>
     ref list \<Rightarrow> error + moves" where
  "traverse_right rd h start stop step clr right skipped =
     traverse_right_from rd h start stop step clr right skipped []"

subsection \<open>Move generation\<close>

text \<open>
  \<^verbatim>\<open>get_valid_moves\<close>, with the read of the grid as a parameter. \<^verbatim>\<open>moves.update(d)\<close> is
  \<open>moves ++ d\<close>: a later write for the same key overwrites the earlier one.
\<close>

definition valid_moves_via ::
    "(int \<Rightarrow> int \<Rightarrow> error + cell) \<Rightarrow> (ref \<Rightarrow> piece) \<Rightarrow> ref \<Rightarrow> error + moves" where
  "valid_moves_via rd h p =
     (let mvs = Map.empty;
          left = col (h p) - 1;
          right = col (h p) + 1;
          rw = row (h p)
      in case (if color (h p) = PLAYER_COLOR_BOTTOM \<or> king (h p) then
                 (case traverse_left rd h (rw - 1) (max (rw - 3) (- 1)) (- 1) (color (h p)) left [] of
                    Inl e \<Rightarrow> Inl e
                  | Inr m1 \<Rightarrow>
                      (case traverse_right rd h (rw - 1) (max (rw - 3) (- 1)) (- 1) (color (h p)) right [] of
                         Inl e \<Rightarrow> Inl e
                       | Inr m2 \<Rightarrow> Inr (mvs ++ m1 ++ m2)))
               else Inr mvs) of
           Inl e \<Rightarrow> Inl e
         | Inr mvs1 \<Rightarrow>
             if color (h p) = PLAYER_COLOR_TOP \<or> king (h p) then
               (case traverse_left rd h (rw + 1) (min (rw + 3) ROWS) 1 (color (h p)) left [] of
                  Inl e \<Rightarrow> Inl e
                | Inr m3 \<Rightarrow>
                    (case traverse_right rd h (rw + 1) (min (rw + 3) ROWS) 1 (color (h p)) right [] of
                       Inl e \<Rightarrow> Inl e
                     | Inr m4 \<Rightarrow> Inr (mvs1 ++ m3 ++ m4)))
             else Inr mvs1)"

definition get_valid_moves :: "Board \<Rightarrow> ref \<Rightarrow> error + moves" where
  "get_valid_moves b p = valid_moves_via (get_cell (board b)) (objs b) p"

text \<open>The same move generation with every grid index checked against the bounds.\<close>

definition checked_valid_moves :: "Board \<Rightarrow> ref \<Rightarrow> error + moves" where
  "checked_valid_moves b p = valid_moves_via (checked_cell (board b)) (objs b) p"

subsection \<open>Queries and mutations of the Board\<close>

text \<open>
  \<^verbatim>\<open>evaluate\<close>. The counters are integers and the products with \<^verbatim>\<open>0.5\<close> are halves of
  integers, which Python's floats hold exactly for counters of this size; the model
  computes in the reals.
\<close>

definition evaluate :: "Board \<Rightarrow> real" where
  "evaluate b =
     real_of_int (white_left b) - real_of_int (red_left b)
       + (real_of_int (white_kings b) * 0.5 - real_of_int (red_kings b) * 0.5)"

definition get_all_pieces :: "Board \<Rightarrow> color \<Rightarrow> ref list" where
  "get_all_pieces b clr =
     concat (map (\<lambda>rw. List.map_filter
                          (\<lambda>x. case x of
                                 None \<Rightarrow> None
                               | Some p \<Rightarrow> if color (objs b p) = clr then Some p else None) rw)
                 (board b))"

text \<open>
  \<^verbatim>\<open>move\<close>. The right-hand side of the swap is read first, destination cell before the
  piece's own cell; then the two targets are assigned from left to right.
\<close>

definition move :: "Board \<Rightarrow> ref \<Rightarrow> int \<Rightarrow> int \<Rightarrow> error + Board" where
  "move b p r c =
     (case get_cell (board b) r c of
        Inl e \<Rightarrow> Inl e
      | Inr dst \<Rightarrow>
     (case get_cell (board b) (row (objs b p)) (col (objs b p)) of
        Inl e \<Rightarrow> Inl e
      | Inr src \<Rightarrow>
     (case set_cell (board b) (row (objs b p)) (col (objs b p)) dst of
        Inl e \<Rightarrow> Inl e
      | Inr g1 \<Rightarrow>
     (case set_cell g1 r c src of
        Inl e \<Rightarrow> Inl e
      | Inr g2 \<Rightarrow>
          let b1 = b\<lparr>board := g2, objs := (objs b)(p := piece_move (objs b p) r c)\<rparr>
          in if r = ROWS - 1 \<or> r = 0 then
               let b2 = b1\<lparr>objs := (objs b1)(p := make_king (objs b1 p))\<rparr>
               in if color (objs b2 p) = PLAYER_COLOR_TOP
                  then Inr (b2\<lparr>white_kings := white_kings b2 + 1\<rparr>)
                  else Inr (b2\<lparr>red_kings := red_kings b2 + 1\<rparr>)
             else Inr b1))))"

definition get_piece :: "Board \<Rightarrow> int \<Rightarrow> int \<Rightarrow> error + cell" where
  "get_piece b r c = get_cell (board b) r c"

text \<open>
  \<^verbatim>\<open>remove\<close>. The elements of \<^verbatim>\<open>pieces\<close> are Piece objects, so the test
  \<^verbatim>\<open>piece != 0\<close> holds for each of them.
\<close>

fun remove_pieces :: "Board \<Rightarrow> ref list \<Rightarrow> error + Board" where
  "remove_pieces b [] = Inr b"
| "remove_pieces b (p # ps) =
     (case set_cell (board b) (row (objs b p)) (col (objs b p)) None of
        Inl e \<Rightarrow> Inl e
      | Inr g \<Rightarrow>
          let b1 = b\<lparr>board := g\<rparr>
          in remove_pieces
               (if color (objs b1 p) = PLAYER_COLOR_BOTTOM
                then b1\<lparr>red_left := red_left b1 - 1\<rparr>
                else b1\<lparr>white_left := white_left b1 - 1\<rparr>) ps)"

definition winner :: "Board \<Rightarrow> color option" where
  "winner b =
     (if red_left b \<le> 0 then Some PLAYER_COLOR_TOP
      else if white_left b \<le> 0 then Some PLAYER_COLOR_BOTTOM
      else None)"

subsection \<open>Construction\<close>

text \<open>
  \<^verbatim>\<open>create_board\<close>. Each \<^verbatim>\<open>Piece(row, col, ...)\<close> is a new object; the model gives the
  object made for the square \<open>(r, c)\<close> the address \<open>new_ref r c\<close>, distinct for distinct
  squares.
\<close>

definition new_ref :: "int \<Rightarrow> int \<Rightarrow> ref" where
  "new_ref r c = nat (r * COLS + c)"

text \<open>\<^verbatim>\<open>self.board[row].append(v)\<close>\<close>

definition append_cell :: "grid \<Rightarrow> int \<Rightarrow> cell \<Rightarrow> error + grid" where
  "append_cell g r v = (case getitem g r of Inl e \<Rightarrow> Inl e | Inr rw \<Rightarrow> setitem g r (rw @ [v]))"

definition create_cell :: "Board \<Rightarrow> int \<Rightarrow> int \<Rightarrow> error + Board" where
  "create_cell b r c =
     (if c mod 2 = (r + 1) mod 2 then
        if r < 3 then
          (case append_cell (board b) r (Some (new_ref r c)) of
             Inl e \<Rightarrow> Inl e
           | Inr g \<Rightarrow> Inr (b\<lparr>objs := (objs b)(new_ref r c := Piece r c PLAYER_COLOR_TOP),
                              board := g\<rparr>))
        else if 4 < r then
          (case append_cell (board b) r (Some (new_ref r c)) of
             Inl e \<Rightarrow> Inl e
           | Inr g \<Rightarrow> Inr (b\<lparr>objs := (objs b)(new_ref r c := Piece r c PLAYER_COLOR_BOTTOM),
                              board := g\<rparr>))
        else
          (case append_cell (board b) r None of Inl e \<Rightarrow> Inl e | Inr g \<Rightarrow> Inr (b\<lparr>board := g\<rparr>))
      else
        (case append_cell (board b) r None of Inl e \<Rightarrow> Inl e | Inr g \<Rightarrow> Inr (b\<lparr>board := g\<rparr>)))"

fun create_cols :: "Board \<Rightarrow> int \<Rightarrow> int list \<Rightarrow> error + Board" where
  "create_cols b r [] = Inr b"
| "create_cols b r (c # cs) =
     (case create_cell b r c of Inl e \<Rightarrow> Inl e | Inr b' \<Rightarrow> create_cols b' r cs)"

fun create_rows :: "Board \<Rightarrow> int list \<Rightarrow> error + Board" where
  "create_rows b [] = Inr b"
| "create_rows b (r # rs) =
     (case create_cols (b\<lparr>board := board b @ [[]]\<rparr>) r [0..COLS - 1] of
        Inl e \<Rightarrow> Inl e
      | Inr b' \<Rightarrow> create_rows b' rs)"

definition create_board :: "Board \<Rightarrow> error + Board" where
  "create_board b = create_rows b [0..ROWS - 1]"

text \<open>
  \<^verbatim>\<open>Board()\<close>. No Piece object exists before the constructor runs: every address of
  the store holds a placeholder, which the constructor overwrites where it makes a piece.
\<close>

definition Board_init :: "error + Board" where
  "Board_init =
     create_board \<lparr>objs = (\<lambda>_. Piece 0 0 PLAYER_COLOR_TOP), board = [],
                   red_left = 12, white_left = 12, red_kings = 0, white_kings = 0\<rparr>"

subsection \<open>Well-formed boards and the invariant of the data model\<close>

text \<open>The grid has \<open>ROWS\<close> rows of \<open>COLS\<close> cells.\<close>

definition grid_ok :: "grid \<Rightarrow> bool" where
  "grid_ok g \<longleftrightarrow> int (length g) = ROWS \<and> list_all (\<lambda>rw. int (length rw) = COLS) g"

text \<open>The stored position of the piece \<open>p\<close> is a square of the board.\<close>

definition in_bounds :: "Board \<Rightarrow> ref \<Rightarrow> bool" where
  "in_bounds b p \<longleftrightarrow>
     0 \<le> row (objs b p) \<and> row (objs b p) < ROWS \<and> 0 \<le> col (objs b p) \<and> col (objs b p) < COLS"

text \<open>The piece \<open>p\<close> is live: the grid holds it at its stored position.\<close>

definition live :: "Board \<Rightarrow> ref \<Rightarrow> bool" where
  "live b p \<longleftrightarrow>
     in_bounds b p \<and> get_cell (board b) (row (objs b p)) (col (objs b p)) = Inr (Some p)"

text \<open>Every piece of the grid is stored at the cell that holds it.\<close>

definition positions_ok :: "Board \<Rightarrow> bool" where
  "positions_ok b \<longleftrightarrow>
     list_all (\<lambda>(i, rw).
        list_all (\<lambda>(j, x). case x of
                              None \<Rightarrow> True
                            | Some p \<Rightarrow> row (objs b p) = int i \<and> col (objs b p) = int j)
                 (enumerate 0 rw))
       (enumerate 0 (board b))"

text \<open>
  The invariant of the data model: a well-formed grid, every live piece stored at its
  cell (so no piece is in two cells; a cell holds one piece or none by its type), and
  the live pieces of each colour as many as that colour's counter.
\<close>

definition invariant :: "Board \<Rightarrow> bool" where
  "invariant b \<longleftrightarrow>
     grid_ok (board b) \<and> positions_ok b \<and>
     int (length (get_all_pieces b PLAYER_COLOR_BOTTOM)) = red_left b \<and>
     int (length (get_all_pieces b PLAYER_COLOR_TOP)) = white_left b"

text \<open>
  A call has returned a board on which the invariant fails.
\<close>

definition invariant_broken :: "error + Board \<Rightarrow> bool" where
  "invariant_broken res \<longleftrightarrow> (case res of Inl e \<Rightarrow> False | Inr b \<Rightarrow> \<not> invariant b)"

text \<open>The test of the scan of \<^verbatim>\<open>get_all_pieces\<close>: the cell holds a piece of the colour.\<close>

abbreviation of_color :: "Board \<Rightarrow> color \<Rightarrow> cell \<Rightarrow> ref option" where
  "of_color b clr \<equiv>
     (\<lambda>x. case x of None \<Rightarrow> None | Some p \<Rightarrow> if color (objs b p) = clr then Some p else None)"

text \<open>
  What a call of \<^verbatim>\<open>remove\<close> leaves behind: the two live-piece counters, bottom colour
  first, and the pieces of each colour that are still on the grid.
\<close>

definition after_removal :: "error + Board \<Rightarrow> error + int \<times> int \<times> ref list \<times> ref list" where
  "after_removal res =
     (case res of
        Inl e \<Rightarrow> Inl e
      | Inr b \<Rightarrow>
          Inr (red_left b, white_left b,
               get_all_pieces b PLAYER_COLOR_BOTTOM, get_all_pieces b PLAYER_COLOR_TOP))"

subsection \<open>Jumps and capture lists\<close>

text \<open>
  The capture list that \<^verbatim>\<open>get_valid_moves(piece)\<close> associates with the destination \<open>k\<close>:
  \<open>Inr None\<close> when the returned map has no such key.
\<close>

definition captures_at :: "Board \<Rightarrow> ref \<Rightarrow> int \<times> int \<Rightarrow> error + ref list option" where
  "captures_at b p k = (case get_valid_moves b p of Inl e \<Rightarrow> Inl e | Inr m \<Rightarrow> Inr (m k))"

text \<open>
  A jump of a piece of the colour \<open>clr\<close> from the square \<open>s\<close> over the piece \<open>a\<close> to the
  square \<open>d\<close>: \<open>d\<close> is two squares from \<open>s\<close> along a diagonal and empty, and the square
  between them holds \<open>a\<close>, a piece of the other colour.
\<close>

definition jump :: "Board \<Rightarrow> color \<Rightarrow> int \<times> int \<Rightarrow> ref \<Rightarrow> int \<times> int \<Rightarrow> bool" where
  "jump b clr s a d \<longleftrightarrow>
     (fst d = fst s + 2 \<or> fst d = fst s - 2) \<and> (snd d = snd s + 2 \<or> snd d = snd s - 2) \<and>
     get_piece b ((fst s + fst d) div 2) ((snd s + snd d) div 2) = Inr (Some a) \<and>
     color (objs b a) \<noteq> clr \<and>
     get_piece b (fst d) (snd d) = Inr None"

text \<open>
  The list \<open>v\<close> holds the pieces captured on a chain of at most two jumps from the square
  \<open>s\<close> to the square \<open>d\<close>, the piece jumped last in front: nothing for a step to an
  adjacent empty square, \<open>[a]\<close> for one jump over \<open>a\<close>, \<open>[x, a]\<close> for a jump over \<open>a\<close>
  followed, in the same row direction, by a jump over \<open>x\<close>.
\<close>

definition captured_on_chain :: "Board \<Rightarrow> color \<Rightarrow> int \<times> int \<Rightarrow> int \<times> int \<Rightarrow> ref list \<Rightarrow> bool" where
  "captured_on_chain b clr s d v \<longleftrightarrow>
     v = [] \<and> (fst d = fst s + 1 \<or> fst d = fst s - 1) \<and> (snd d = snd s + 1 \<or> snd d = snd s - 1) \<and>
       get_piece b (fst d) (snd d) = Inr None \<or>
     (\<exists>a. v = [a] \<and> jump b clr s a d) \<or>
     (\<exists>a x mid. v = [x, a] \<and> jump b clr s a mid \<and> jump b clr mid x d \<and>
                 fst d - fst mid = fst mid - fst s)"

subsection \<open>The destinations a traversal writes\<close>

text \<open>
  The loop goes on at the row \<open>r\<close> of \<^verbatim>\<open>range(start, stop, step)\<close>; the stop row of a
  continuation after a capture at the row \<open>r\<close>.
\<close>

abbreviation in_range :: "int \<Rightarrow> int \<Rightarrow> int \<Rightarrow> bool" where
  "in_range r stop step \<equiv> (0 < step \<and> r < stop) \<or> (step < 0 \<and> stop < r)"

abbreviation ahead :: "int \<Rightarrow> int \<Rightarrow> int" where
  "ahead step r \<equiv> (if step = - 1 then max (r - 3) 0 else min (r + 3) ROWS)"

text \<open>
  A relational reading of the two loops, used in the proofs: \<open>writes_left \<dots> k v\<close> holds
  when the call of the left traversal stores the value \<open>v\<close> under the key \<open>k\<close>, either
  at the empty square that ends its loop, or in one of its two continuations, or
  further along its loop beyond an opponent piece.
\<close>

inductive writes_left ::
    "(int \<Rightarrow> int \<Rightarrow> error + cell) \<Rightarrow> (ref \<Rightarrow> piece) \<Rightarrow> int \<Rightarrow> int \<Rightarrow> int \<Rightarrow> color \<Rightarrow> int \<Rightarrow>
     ref list \<Rightarrow> ref list \<Rightarrow> int \<times> int \<Rightarrow> ref list \<Rightarrow> bool"
  and writes_right ::
    "(int \<Rightarrow> int \<Rightarrow> error + cell) \<Rightarrow> (ref \<Rightarrow> piece) \<Rightarrow> int \<Rightarrow> int \<Rightarrow> int \<Rightarrow> color \<Rightarrow> int \<Rightarrow>
     ref list \<Rightarrow> ref list \<Rightarrow> int \<times> int \<Rightarrow> ref list \<Rightarrow> bool"
where
  land_left:
    "step \<noteq> 0 \<Longrightarrow> in_range r stop step \<Longrightarrow> 0 \<le> left \<Longrightarrow> rd r left = Inr None \<Longrightarrow>
     \<not> (skipped \<noteq> [] \<and> lst = []) \<Longrightarrow>
     writes_left rd h r stop step clr left skipped lst (r, left)
       (if skipped \<noteq> [] then lst @ skipped else lst)"
| go_on_left_left:
    "step \<noteq> 0 \<Longrightarrow> in_range r stop step \<Longrightarrow> 0 \<le> left \<Longrightarrow> rd r left = Inr None \<Longrightarrow>
     lst \<noteq> [] \<Longrightarrow>
     writes_left rd h (r + step) (ahead step r) step clr (left - 1) lst [] k v \<Longrightarrow>
     writes_left rd h r stop step clr left skipped lst k v"
| go_on_left_right:
    "step \<noteq> 0 \<Longrightarrow> in_range r stop step \<Longrightarrow> 0 \<le> left \<Longrightarrow> rd r left = Inr None \<Longrightarrow>
     lst \<noteq> [] \<Longrightarrow>
     writes_right rd h (r + step) (ahead step r) step clr (left + 1) lst [] k v \<Longrightarrow>
     writes_left rd h r stop step clr left skipped lst k v"
| pass_left:
    "step \<noteq> 0 \<Longrightarrow> in_range r stop step \<Longrightarrow> 0 \<le> left \<Longrightarrow> rd r left = Inr (Some x) \<Longrightarrow>
     color (h x) \<noteq> clr \<Longrightarrow>
     writes_left rd h (r + step) stop step clr (left - 1) skipped [x] k v \<Longrightarrow>
     writes_left rd h r stop step clr left skipped lst k v"
| land_right:
    "step \<noteq> 0 \<Longrightarrow> in_range r stop step \<Longrightarrow> right < COLS \<Longrightarrow> rd r right = Inr None \<Longrightarrow>
     \<not> (skipped \<noteq> [] \<and> lst = []) \<Longrightarrow>
     writes_right rd h r stop step clr right skipped lst (r, right)
       (if skipped \<noteq> [] then lst @ skipped else lst)"
| go_on_right_left:
    "step \<noteq> 0 \<Longrightarrow> in_range r stop step \<Longrightarrow> right < COLS \<Longrightarrow> rd r right = Inr None \<Longrightarrow>
     lst \<noteq> [] \<Longrightarrow>
     writes_left rd h (r + step) (ahead step r) step clr (right - 1) lst [] k v \<Longrightarrow>
     writes_right rd h r stop step clr right skipped lst k v"
| go_on_right_right:
    "step \<noteq> 0 \<Longrightarrow> in_range r stop step \<Longrightarrow> right < COLS \<Longrightarrow> rd r right = Inr None \<Longrightarrow>
     lst \<noteq> [] \<Longrightarrow>
     writes_right rd h (r + step) (ahead step r) step clr (right + 1) lst [] k v \<Longrightarrow>
     writes_right rd h r stop step clr right skipped lst k v"
| pass_right:
    "step \<noteq> 0 \<Longrightarrow> in_range r stop step \<Longrightarrow> right < COLS \<Longrightarrow> rd r right = Inr (Some x) \<Longrightarrow>
     color (h x) \<noteq> clr \<Longrightarrow>
     writes_right rd h (r + step) stop step clr (right + 1) skipped [x] k v \<Longrightarrow>
     writes_right rd h r stop step clr right skipped lst k v"

subsection \<open>Positions used as examples\<close>

definition empty_board :: Board where
  "empty_board =
     \<lparr>objs = (\<lambda>_. Piece 0 0 PLAYER_COLOR_TOP), board = replicate 8 (replicate 8 None),
      red_left = 0, white_left = 0, red_kings = 0, white_kings = 0\<rparr>"

text \<open>Puts the Piece object \<open>x\<close>, under the reference \<open>p\<close>, on its square and counts it.\<close>

definition put :: "Board \<Rightarrow> ref \<times> piece \<Rightarrow> Board" where
  "put b px =
     (case px of (p, x) \<Rightarrow>
        b\<lparr>objs := (objs b)(p := x),
          board := (board b)[nat (row x) := (board b ! nat (row x))[nat (col x) := Some p]],
          red_left := red_left b + (if color x = PLAYER_COLOR_BOTTOM then 1 else 0),
          white_left := white_left b + (if color x = PLAYER_COLOR_TOP then 1 else 0),
          red_kings := red_kings b + (if color x = PLAYER_COLOR_BOTTOM \<and> king x then 1 else 0),
          white_kings := white_kings b + (if color x = PLAYER_COLOR_TOP \<and> king x then 1 else 0)\<rparr>)"

definition position :: "(ref \<times> piece) list \<Rightarrow> Board" where
  "position pxs = foldl put empty_board pxs"

text \<open>
  A bottom piece on (4, 1) with top pieces on (3, 2) and (1, 4): two jumps in a row
  lead over (2, 3) to (0, 5).
\<close>

definition up_to_row0 :: Board where
  "up_to_row0 = position
     [(1, Piece 4 1 PLAYER_COLOR_BOTTOM), (2, Piece 3 2 PLAYER_COLOR_TOP),
      (3, Piece 1 4 PLAYER_COLOR_TOP)]"

text \<open>
  The mirror image: a top piece on (3, 1) with bottom pieces on (4, 2) and (6, 4); two
  jumps in a row lead over (5, 3) to (7, 5).
\<close>

definition down_to_row7 :: Board where
  "down_to_row7 = position
     [(1, Piece 3 1 PLAYER_COLOR_TOP), (2, Piece 4 2 PLAYER_COLOR_BOTTOM),
      (3, Piece 6 4 PLAYER_COLOR_BOTTOM)]"

text \<open>A bottom piece on (2, 1) with a top piece on (1, 2): one jump leads to (0, 3).\<close>

definition near_row0 :: Board where
  "near_row0 = position [(1, Piece 2 1 PLAYER_COLOR_BOTTOM), (2, Piece 1 2 PLAYER_COLOR_TOP)]"

text \<open>A bottom king on (0, 1) and a top piece on (5, 0).\<close>

definition one_red_king :: Board where
  "one_red_king = position
     [(1, make_king (Piece 0 1 PLAYER_COLOR_BOTTOM)), (2, Piece 5 0 PLAYER_COLOR_TOP)]"

text \<open>A bottom king alone on (3, 2).\<close>

definition lone_king :: Board where
  "lone_king = position [(1, make_king (Piece 3 2 PLAYER_COLOR_BOTTOM))]"

text \<open>
  Three pieces: a bottom piece on (5, 0), a bottom piece on (6, 1) and a top piece on
  (0, 1).
\<close>

definition three_pieces :: Board where
  "three_pieces = position
     [(1, Piece 5 0 PLAYER_COLOR_BOTTOM), (2, Piece 6 1 PLAYER_COLOR_BOTTOM),
      (3, Piece 0 1 PLAYER_COLOR_TOP)]"

text \<open>
  The same game later: the piece 1 has been captured on (5, 0), where its object still
  says it is, and the piece 2 has moved to that square.
\<close>

definition after_capture :: Board where
  "after_capture =
     (position [(2, Piece 5 0 PLAYER_COLOR_BOTTOM), (3, Piece 0 1 PLAYER_COLOR_TOP)])
       \<lparr>objs := (objs (position [(2, Piece 5 0 PLAYER_COLOR_BOTTOM),
                                    (3, Piece 0 1 PLAYER_COLOR_TOP)]))
                  (1 := Piece 5 0 PLAYER_COLOR_BOTTOM)\<rparr>"

section \<open>Properties\<close>

subsection \<open>Evaluation\<close>

text \<open>
  C2 (as amended). \<^verbatim>\<open>evaluate\<close> returns the difference of the live-piece counters of the
  top and the bottom colour plus half the difference of their king counters; the bottom
  colour's kings are subtracted once, not twice.
\<close>

theorem evaluate_material_score:
  "evaluate b =
     real_of_int (white_left b - red_left b) + 0.5 * real_of_int (white_kings b - red_kings b)"
  by (simp add: evaluate_def algebra_simps)

text \<open>
  C2 as stated fails: with one bottom king and one top piece the code returns \<open>- 1 / 2\<close>,
  while the formula that subtracts half the bottom kings a second time gives \<open>- 1\<close>.
\<close>

theorem evaluate_literal_formula_counterexample:
  "evaluate one_red_king \<noteq>
     real_of_int (white_left one_red_king - red_left one_red_king)
       + 0.5 * real_of_int (white_kings one_red_king - red_kings one_red_king)
       - 0.5 * real_of_int (red_kings one_red_king)"
  by (simp add: evaluate_def one_red_king_def position_def put_def empty_board_def Piece_def
      make_king_def)

subsection \<open>Promotion\<close>




subsection \<open>The starting position\<close>

lemma Board_init_returns:
  "case Board_init of Inl e \<Rightarrow> False | Inr b \<Rightarrow> True"
  by code_simp

lemma Board_init_counts:
  "case Board_init of
     Inl e \<Rightarrow> False
   | Inr b \<Rightarrow>
       length (get_all_pieces b PLAYER_COLOR_TOP) = 12 \<and>
       length (get_all_pieces b PLAYER_COLOR_BOTTOM) = 12 \<and>
       white_left b = 12 \<and> red_left b = 12 \<and> white_kings b = 0 \<and> red_kings b = 0 \<and>
       grid_ok (board b) \<and> winner b = None \<and> evaluate b = 0"
  by code_simp

lemma Board_init_cells:
  "\<forall>r \<in> set [0..7]. \<forall>c \<in> set [0..7].
     case Board_init of
       Inl e \<Rightarrow> False
     | Inr b \<Rightarrow>
         (case get_piece b r c of
            Inl e \<Rightarrow> False
          | Inr None \<Rightarrow> \<not> (c mod 2 = (r + 1) mod 2 \<and> (r < 3 \<or> 4 < r))
          | Inr (Some p) \<Rightarrow>
              c mod 2 = (r + 1) mod 2 \<and> (r < 3 \<or> 4 < r) \<and>
              objs b p = Piece r c (if r < 3 then PLAYER_COLOR_TOP else PLAYER_COLOR_BOTTOM))"
  by code_simp

text \<open>
  C9. \<^verbatim>\<open>Board()\<close> returns a board with twelve live pieces of each colour and both
  live-piece counters at 12, no kings counted, a piece exactly on the squares with
  \<open>col mod 2 = (row + 1) mod 2\<close> of the rows 0 to 2 (top colour) and 5 to 7 (bottom colour),
  each stored at its square and not a king, every other square empty, no winner and an
  evaluation of 0.
\<close>

theorem Board_init_start:
  "\<exists>b. Board_init = Inr b \<and>
       length (get_all_pieces b PLAYER_COLOR_TOP) = 12 \<and>
       length (get_all_pieces b PLAYER_COLOR_BOTTOM) = 12 \<and>
       white_left b = 12 \<and> red_left b = 12 \<and> white_kings b = 0 \<and> red_kings b = 0 \<and>
       (\<forall>r c. 0 \<le> r \<and> r < ROWS \<and> 0 \<le> c \<and> c < COLS \<longrightarrow>
          (case get_piece b r c of
             Inl e \<Rightarrow> False
           | Inr None \<Rightarrow> \<not> (c mod 2 = (r + 1) mod 2 \<and> (r < 3 \<or> 4 < r))
           | Inr (Some p) \<Rightarrow>
               c mod 2 = (r + 1) mod 2 \<and> (r < 3 \<or> 4 < r) \<and>
               objs b p = Piece r c (if r < 3 then PLAYER_COLOR_TOP else PLAYER_COLOR_BOTTOM))) \<and>
       winner b = None \<and> evaluate b = 0"
proof -
  obtain b where b: "Board_init = Inr b"
    using Board_init_returns by (auto split: sum.splits)
  have counts: "length (get_all_pieces b PLAYER_COLOR_TOP) = 12 \<and>
       length (get_all_pieces b PLAYER_COLOR_BOTTOM) = 12 \<and>
       white_left b = 12 \<and> red_left b = 12 \<and> white_kings b = 0 \<and> red_kings b = 0 \<and>
       winner b = None \<and> evaluate b = 0"
    using Board_init_counts by (simp add: b)
  have cells: "case get_piece b r c of
             Inl e \<Rightarrow> False
           | Inr None \<Rightarrow> \<not> (c mod 2 = (r + 1) mod 2 \<and> (r < 3 \<or> 4 < r))
           | Inr (Some p) \<Rightarrow>
               c mod 2 = (r + 1) mod 2 \<and> (r < 3 \<or> 4 < r) \<and>
               objs b p = Piece r c (if r < 3 then PLAYER_COLOR_TOP else PLAYER_COLOR_BOTTOM)"
    if "0 \<le> r" "r < ROWS" "0 \<le> c" "c < COLS" for r c
  proof -
    have "r \<in> set [0..7]" "c \<in> set [0..7]"
      using that by (simp_all add: ROWS_def COLS_def)
    moreover note Board_init_cells [unfolded b sum.case]
    ultimately show ?thesis
      by blast
  qed
  from b counts cells show ?thesis
    by blast
qed


text \<open>The square (5, 0) of the new board holds a bottom piece stored at (5, 0).\<close>

theorem Board_init_start_witness:
  "\<exists>b p. Board_init = Inr b \<and> (0::int) \<le> 5 \<and> 5 < ROWS \<and> (0::int) \<le> 0 \<and> 0 < COLS \<and>
         get_piece b 5 0 = Inr (Some p) \<and> objs b p = Piece 5 0 PLAYER_COLOR_BOTTOM"
proof -
  from Board_init_start obtain b where b: "Board_init = Inr b"
    and cells: "\<forall>r c. 0 \<le> r \<and> r < ROWS \<and> 0 \<le> c \<and> c < COLS \<longrightarrow>
          (case get_piece b r c of
             Inl e \<Rightarrow> False
           | Inr None \<Rightarrow> \<not> (c mod 2 = (r + 1) mod 2 \<and> (r < 3 \<or> 4 < r))
           | Inr (Some p) \<Rightarrow>
               c mod 2 = (r + 1) mod 2 \<and> (r < 3 \<or> 4 < r) \<and>
               objs b p = Piece r c (if r < 3 then PLAYER_COLOR_TOP else PLAYER_COLOR_BOTTOM))"
    by blast
  have "(0::int) \<le> 5 \<and> 5 < ROWS \<and> (0::int) \<le> 0 \<and> 0 < COLS"
    by (simp add: ROWS_def COLS_def)
  with cells [rule_format, of 5 0] b show ?thesis
    by (auto split: sum.splits option.splits)
qed

subsection \<open>Reads and writes inside a well-formed grid\<close>

lemma grid_ok_length:
  "grid_ok g \<Longrightarrow> 0 \<le> r \<Longrightarrow> r < ROWS \<Longrightarrow> nat r < length g"
  unfolding grid_ok_def by linarith

lemma grid_ok_nth:
  "grid_ok g \<Longrightarrow> 0 \<le> r \<Longrightarrow> r < ROWS \<Longrightarrow> int (length (g ! nat r)) = COLS"
  using grid_ok_length [of g r] by (simp add: grid_ok_def list_all_length)

lemma getitem_in_bounds:
  "0 \<le> i \<Longrightarrow> i < int (length xs) \<Longrightarrow> getitem xs i = Inr (xs ! nat i)"
  by (simp add: getitem_def py_index_def)

lemma setitem_in_bounds:
  "0 \<le> i \<Longrightarrow> i < int (length xs) \<Longrightarrow> setitem xs i v = Inr (xs[nat i := v])"
  by (simp add: setitem_def py_index_def)

lemma get_cell_in_bounds:
  assumes "grid_ok g" "0 \<le> r" "r < ROWS" "0 \<le> c" "c < COLS"
  shows "get_cell g r c = Inr (g ! nat r ! nat c)"
proof -
  have "r < int (length g)"
    using assms unfolding grid_ok_def by linarith
  moreover have "c < int (length (g ! nat r))"
    using assms grid_ok_nth [of g r] by simp
  ultimately show ?thesis
    using assms by (simp add: get_cell_def getitem_in_bounds)
qed

lemma set_cell_in_bounds:
  assumes "grid_ok g" "0 \<le> r" "r < ROWS" "0 \<le> c" "c < COLS"
  shows "set_cell g r c v = Inr (g[nat r := (g ! nat r)[nat c := v]])"
proof -
  have "r < int (length g)"
    using assms unfolding grid_ok_def by linarith
  moreover have "c < int (length (g ! nat r))"
    using assms grid_ok_nth [of g r] by simp
  ultimately show ?thesis
    using assms by (simp add: set_cell_def getitem_in_bounds setitem_in_bounds)
qed

lemma grid_ok_update:
  assumes "grid_ok g"
  shows "grid_ok (g[i := (g ! i)[j := v]])"
proof (cases "i < length g")
  case True
  with assms show ?thesis
    by (auto simp: grid_ok_def list_all_length nth_list_update)
next
  case False
  with assms show ?thesis by (simp add: list_update_beyond)
qed

lemma nth_grid_update:
  assumes "grid_ok g" "0 \<le> r" "r < ROWS" "0 \<le> c" "c < COLS"
    and "0 \<le> r'" "r' < ROWS" "0 \<le> c'" "c' < COLS"
  shows "g[nat r := (g ! nat r)[nat c := v]] ! nat r' ! nat c' =
         (if r' = r \<and> c' = c then v else g ! nat r' ! nat c')"
proof -
  have "nat r < length g" "nat r' < length g"
    using assms by (simp_all add: grid_ok_length)
  moreover have "nat c < length (g ! nat r)"
    using assms grid_ok_nth [of g r] by simp
  ultimately show ?thesis
    using assms by (auto simp: nth_list_update nat_eq_iff)
qed

subsection \<open>Removal and the winner\<close>

lemma remove_pieces_effect:
  assumes "grid_ok (board b)" and "\<forall>p\<in>set ps. in_bounds b p"
  shows "\<exists>b'. remove_pieces b ps = Inr b' \<and> objs b' = objs b \<and> grid_ok (board b') \<and>
           red_kings b' = red_kings b \<and> white_kings b' = white_kings b \<and>
           red_left b' =
             red_left b - int (length (filter (\<lambda>p. color (objs b p) = PLAYER_COLOR_BOTTOM) ps)) \<and>
           white_left b' =
             white_left b - int (length (filter (\<lambda>p. color (objs b p) \<noteq> PLAYER_COLOR_BOTTOM) ps)) \<and>
           (\<forall>r c. 0 \<le> r \<and> r < ROWS \<and> 0 \<le> c \<and> c < COLS \<longrightarrow>
              board b' ! nat r ! nat c =
                (if \<exists>p\<in>set ps. row (objs b p) = r \<and> col (objs b p) = c then None
                 else board b ! nat r ! nat c))"
  using assms
proof (induction ps arbitrary: b)
  case Nil
  then show ?case by simp
next
  case (Cons p ps)
  let ?g = "(board b)[nat (row (objs b p)) := (board b ! nat (row (objs b p)))[nat (col (objs b p)) := None]]"
  let ?b1 = "b\<lparr>board := ?g\<rparr>"
  let ?b2 = "if color (objs ?b1 p) = PLAYER_COLOR_BOTTOM
             then ?b1\<lparr>red_left := red_left ?b1 - 1\<rparr>
             else ?b1\<lparr>white_left := white_left ?b1 - 1\<rparr>"
  have pb: "0 \<le> row (objs b p)" "row (objs b p) < ROWS" "0 \<le> col (objs b p)" "col (objs b p) < COLS"
    using Cons.prems(2) by (simp_all add: in_bounds_def)
  have sc: "set_cell (board b) (row (objs b p)) (col (objs b p)) None = Inr ?g"
    using Cons.prems(1) pb by (rule set_cell_in_bounds)
  have step: "remove_pieces b (p # ps) = remove_pieces ?b2 ps"
    by (simp add: sc Let_def)
  have o2: "objs ?b2 = objs b" and g2: "board ?b2 = ?g"
    by simp_all
  have ok2: "grid_ok (board ?b2)"
    unfolding g2 using Cons.prems(1) by (rule grid_ok_update)
  have ib2: "\<forall>q\<in>set ps. in_bounds ?b2 q"
    using Cons.prems(2) by (simp add: in_bounds_def)
  from Cons.IH [OF ok2 ib2] obtain b' where b':
    "remove_pieces ?b2 ps = Inr b'" "objs b' = objs ?b2" "grid_ok (board b')"
    "red_kings b' = red_kings ?b2" "white_kings b' = white_kings ?b2"
    "red_left b' = red_left ?b2 - int (length (filter (\<lambda>p. color (objs ?b2 p) = PLAYER_COLOR_BOTTOM) ps))"
    "white_left b' = white_left ?b2 - int (length (filter (\<lambda>p. color (objs ?b2 p) \<noteq> PLAYER_COLOR_BOTTOM) ps))"
    "\<forall>r c. 0 \<le> r \<and> r < ROWS \<and> 0 \<le> c \<and> c < COLS \<longrightarrow>
              board b' ! nat r ! nat c =
                (if \<exists>p\<in>set ps. row (objs ?b2 p) = r \<and> col (objs ?b2 p) = c then None
                 else board ?b2 ! nat r ! nat c)"
    by blast
  have cells: "board b' ! nat r ! nat c =
                (if \<exists>q\<in>set (p # ps). row (objs b q) = r \<and> col (objs b q) = c then None
                 else board b ! nat r ! nat c)"
    if rc: "0 \<le> r \<and> r < ROWS \<and> 0 \<le> c \<and> c < COLS" for r c
  proof -
    have "?g ! nat r ! nat c =
            (if r = row (objs b p) \<and> c = col (objs b p) then None else board b ! nat r ! nat c)"
      using nth_grid_update [OF Cons.prems(1) pb, of r c None] rc by simp
    with b'(8) [rule_format, OF rc] show ?thesis
      unfolding g2 o2 by auto
  qed
  show ?case
    unfolding step using b'(1-7) cells by (auto simp: o2)
qed


text \<open>
  C7 (as amended). On a well-formed grid, \<^verbatim>\<open>remove(pieces)\<close> with pairwise distinct pieces,
  each live at its stored square, returns; afterwards each of those squares is empty,
  \<^verbatim>\<open>red_left\<close> has dropped by the number of bottom pieces removed and \<^verbatim>\<open>white_left\<close> by the
  number of top pieces removed, one per piece. \<^verbatim>\<open>winner()\<close> of any board \<open>x\<close> is the top
  colour if \<^verbatim>\<open>red_left\<close> is at most 0, else the bottom colour if \<^verbatim>\<open>white_left\<close> is at most
  0, else none.
\<close>

theorem remove_clears_and_counts:
  assumes "grid_ok (board b)" and "\<forall>p\<in>set ps. live b p" and "distinct ps"
  shows "\<exists>b'. remove_pieces b ps = Inr b' \<and>
           (\<forall>p\<in>set ps. get_piece b' (row (objs b p)) (col (objs b p)) = Inr None) \<and>
           red_left b' =
             red_left b - int (card {p \<in> set ps. color (objs b p) = PLAYER_COLOR_BOTTOM}) \<and>
           white_left b' =
             white_left b - int (card {p \<in> set ps. color (objs b p) = PLAYER_COLOR_TOP}) \<and>
           winner x =
             (if red_left x \<le> 0 then Some PLAYER_COLOR_TOP
              else if white_left x \<le> 0 then Some PLAYER_COLOR_BOTTOM
              else None)"
proof -
  have ib: "\<forall>p\<in>set ps. in_bounds b p"
    using assms(2) by (simp add: live_def)
  from remove_pieces_effect [OF assms(1) ib] obtain b' where b':
    "remove_pieces b ps = Inr b'" "grid_ok (board b')"
    "red_left b' =
       red_left b - int (length (filter (\<lambda>p. color (objs b p) = PLAYER_COLOR_BOTTOM) ps))"
    "white_left b' =
       white_left b - int (length (filter (\<lambda>p. color (objs b p) \<noteq> PLAYER_COLOR_BOTTOM) ps))"
    "\<forall>r c. 0 \<le> r \<and> r < ROWS \<and> 0 \<le> c \<and> c < COLS \<longrightarrow>
        board b' ! nat r ! nat c =
          (if \<exists>p\<in>set ps. row (objs b p) = r \<and> col (objs b p) = c then None
           else board b ! nat r ! nat c)"
    by blast
  have top: "(\<lambda>p. color (objs b p) \<noteq> PLAYER_COLOR_BOTTOM) = (\<lambda>p. color (objs b p) = PLAYER_COLOR_TOP)"
    by (rule ext) (metis color.exhaust color.distinct(1))
  have cleared: "get_piece b' (row (objs b p)) (col (objs b p)) = Inr None" if "p \<in> set ps" for p
  proof -
    have rc: "0 \<le> row (objs b p) \<and> row (objs b p) < ROWS \<and> 0 \<le> col (objs b p) \<and> col (objs b p) < COLS"
      using ib that by (simp add: in_bounds_def)
    then have "get_cell (board b') (row (objs b p)) (col (objs b p)) =
                 Inr (board b' ! nat (row (objs b p)) ! nat (col (objs b p)))"
      using b'(2) by (simp add: get_cell_in_bounds)
    also have "board b' ! nat (row (objs b p)) ! nat (col (objs b p)) = None"
      using b'(5) [rule_format, OF rc] that by auto
    finally show ?thesis
      by (simp add: get_piece_def)
  qed
  have each: "length (filter P ps) = card {p \<in> set ps. P p}" for P
    using distinct_card [of "filter P ps"] assms(3) by simp
  from b'(1,3,4) cleared show ?thesis
    unfolding top each by (auto simp: winner_def)
qed

lemma last_red_piece:
  "grid_ok (board one_red_king) \<and> live one_red_king 1 \<and> red_left one_red_king = 1 \<and>
   color (objs one_red_king 1) = PLAYER_COLOR_BOTTOM \<and> winner one_red_king = None"
  by code_simp

text \<open>Removing the only bottom piece of \<open>one_red_king\<close> makes the top colour the winner.\<close>

theorem remove_clears_and_counts_witness:
  "grid_ok (board one_red_king) \<and> live one_red_king 1 \<and> distinct [1::nat] \<and>
   winner one_red_king = None \<and>
   (\<exists>b'. remove_pieces one_red_king [1] = Inr b' \<and> get_piece b' 0 1 = Inr None \<and>
         red_left b' = 0 \<and> white_left b' = 1 \<and> winner b' = Some PLAYER_COLOR_TOP)"
proof -
  have g: "grid_ok (board one_red_king)" and l: "\<forall>p\<in>set [1]. live one_red_king p"
    and d: "distinct [1::nat]"
    using last_red_piece by simp_all
  have at: "row (objs one_red_king 1) = 0 \<and> col (objs one_red_king 1) = 1 \<and>
            white_left one_red_king = 1"
    by code_simp
  have bottom: "{p \<in> set [1::nat]. color (objs one_red_king p) = PLAYER_COLOR_BOTTOM} = {1}"
    and top: "{p \<in> set [1::nat]. color (objs one_red_king p) = PLAYER_COLOR_TOP} = {}"
    using last_red_piece by auto
  from remove_clears_and_counts [OF g l d, where x = "one_red_king"] last_red_piece at
  obtain b' where b': "remove_pieces one_red_king [1] = Inr b'" "get_piece b' 0 1 = Inr None"
      "red_left b' = 0" "white_left b' = 1"
    unfolding bottom top by auto
  from remove_clears_and_counts [OF g l d, where x = b'] b' have "winner b' = Some PLAYER_COLOR_TOP"
    by auto
  with b' g l d last_red_piece show ?thesis
    by simp
qed

text \<open>
  C7 as stated fails: in \<open>three_pieces\<close> the bottom piece 1 is live at (5, 0) and
  \<^verbatim>\<open>red_left\<close> is 2. \<^verbatim>\<open>remove([piece 1, piece 1])\<close> clears that one square, so the bottom
  piece 2 is still on the grid, and leaves \<^verbatim>\<open>red_left\<close> at 0: the counter has dropped by
  two for one removed piece.
\<close>

theorem remove_twice_counterexample:
  "grid_ok (board three_pieces) \<and> live three_pieces 1 \<and>
   color (objs three_pieces 1) = PLAYER_COLOR_BOTTOM \<and>
   red_left three_pieces = 2 \<and> white_left three_pieces = 1 \<and>
   get_all_pieces three_pieces PLAYER_COLOR_BOTTOM = [1, 2] \<and>
   after_removal (remove_pieces three_pieces [1, 1]) = Inr (0, 1, [2], [3])"
  by code_simp

subsection \<open>One iteration of a traversal\<close>

lemma left_stops:
  "step = 0 \<Longrightarrow> traverse_left_from rd h r stop step clr left skipped lst = Inl ValueError"
  "step \<noteq> 0 \<Longrightarrow> \<not> in_range r stop step \<or> left < 0 \<Longrightarrow>
     traverse_left_from rd h r stop step clr left skipped lst = Inr Map.empty"
  "step \<noteq> 0 \<Longrightarrow> in_range r stop step \<Longrightarrow> 0 \<le> left \<Longrightarrow> rd r left = Inl e \<Longrightarrow>
     traverse_left_from rd h r stop step clr left skipped lst = Inl e"
  "step \<noteq> 0 \<Longrightarrow> in_range r stop step \<Longrightarrow> 0 \<le> left \<Longrightarrow> rd r left = Inr (Some x) \<Longrightarrow>
     color (h x) = clr \<Longrightarrow>
     traverse_left_from rd h r stop step clr left skipped lst = Inr Map.empty"
  "step \<noteq> 0 \<Longrightarrow> in_range r stop step \<Longrightarrow> 0 \<le> left \<Longrightarrow> rd r left = Inr None \<Longrightarrow>
     skipped \<noteq> [] \<Longrightarrow> lst = [] \<Longrightarrow>
     traverse_left_from rd h r stop step clr left skipped lst = Inr Map.empty"
  by (subst traverse_left_from.simps [of rd h r stop step clr left skipped lst]; auto)+

lemma left_passes:
  "step \<noteq> 0 \<Longrightarrow> in_range r stop step \<Longrightarrow> 0 \<le> left \<Longrightarrow> rd r left = Inr (Some x) \<Longrightarrow>
     color (h x) \<noteq> clr \<Longrightarrow>
     traverse_left_from rd h r stop step clr left skipped lst =
     traverse_left_from rd h (r + step) stop step clr (left - 1) skipped [x]"
  by (subst traverse_left_from.simps [of rd h r stop step clr left skipped lst]) simp

lemma left_lands:
  "step \<noteq> 0 \<Longrightarrow> in_range r stop step \<Longrightarrow> 0 \<le> left \<Longrightarrow> rd r left = Inr None \<Longrightarrow>
     skipped = [] \<Longrightarrow> lst = [] \<Longrightarrow>
     traverse_left_from rd h r stop step clr left skipped lst = Inr [(r, left) \<mapsto> []]"
  by (subst traverse_left_from.simps [of rd h r stop step clr left skipped lst]) simp

lemma left_jumps:
  "step \<noteq> 0 \<Longrightarrow> in_range r stop step \<Longrightarrow> 0 \<le> left \<Longrightarrow> rd r left = Inr None \<Longrightarrow>
     lst \<noteq> [] \<Longrightarrow>
     traverse_left_from rd h r stop step clr left skipped lst =
       (case traverse_left_from rd h (r + step) (ahead step r) step clr (left - 1) lst [] of
          Inl e \<Rightarrow> Inl e
        | Inr m1 \<Rightarrow>
            (case traverse_right_from rd h (r + step) (ahead step r) step clr (left + 1) lst [] of
               Inl e \<Rightarrow> Inl e
             | Inr m2 \<Rightarrow> Inr ([(r, left) \<mapsto> lst @ skipped] ++ m1 ++ m2)))"
  by (subst traverse_left_from.simps [of rd h r stop step clr left skipped lst])
     (cases "skipped = []"; simp add: Let_def split: sum.splits)

lemma right_stops:
  "step = 0 \<Longrightarrow> traverse_right_from rd h r stop step clr right skipped lst = Inl ValueError"
  "step \<noteq> 0 \<Longrightarrow> \<not> in_range r stop step \<or> COLS \<le> right \<Longrightarrow>
     traverse_right_from rd h r stop step clr right skipped lst = Inr Map.empty"
  "step \<noteq> 0 \<Longrightarrow> in_range r stop step \<Longrightarrow> right < COLS \<Longrightarrow> rd r right = Inl e \<Longrightarrow>
     traverse_right_from rd h r stop step clr right skipped lst = Inl e"
  "step \<noteq> 0 \<Longrightarrow> in_range r stop step \<Longrightarrow> right < COLS \<Longrightarrow> rd r right = Inr (Some x) \<Longrightarrow>
     color (h x) = clr \<Longrightarrow>
     traverse_right_from rd h r stop step clr right skipped lst = Inr Map.empty"
  "step \<noteq> 0 \<Longrightarrow> in_range r stop step \<Longrightarrow> right < COLS \<Longrightarrow> rd r right = Inr None \<Longrightarrow>
     skipped \<noteq> [] \<Longrightarrow> lst = [] \<Longrightarrow>
     traverse_right_from rd h r stop step clr right skipped lst = Inr Map.empty"
  by (subst traverse_right_from.simps [of rd h r stop step clr right skipped lst]; auto)+

lemma right_passes:
  "step \<noteq> 0 \<Longrightarrow> in_range r stop step \<Longrightarrow> right < COLS \<Longrightarrow> rd r right = Inr (Some x) \<Longrightarrow>
     color (h x) \<noteq> clr \<Longrightarrow>
     traverse_right_from rd h r stop step clr right skipped lst =
     traverse_right_from rd h (r + step) stop step clr (right + 1) skipped [x]"
  by (subst traverse_right_from.simps [of rd h r stop step clr right skipped lst]) simp

lemma right_lands:
  "step \<noteq> 0 \<Longrightarrow> in_range r stop step \<Longrightarrow> right < COLS \<Longrightarrow> rd r right = Inr None \<Longrightarrow>
     skipped = [] \<Longrightarrow> lst = [] \<Longrightarrow>
     traverse_right_from rd h r stop step clr right skipped lst = Inr [(r, right) \<mapsto> []]"
  by (subst traverse_right_from.simps [of rd h r stop step clr right skipped lst]) simp

lemma right_jumps:
  "step \<noteq> 0 \<Longrightarrow> in_range r stop step \<Longrightarrow> right < COLS \<Longrightarrow> rd r right = Inr None \<Longrightarrow>
     lst \<noteq> [] \<Longrightarrow>
     traverse_right_from rd h r stop step clr right skipped lst =
       (case traverse_left_from rd h (r + step) (ahead step r) step clr (right - 1) lst [] of
          Inl e \<Rightarrow> Inl e
        | Inr m1 \<Rightarrow>
            (case traverse_right_from rd h (r + step) (ahead step r) step clr (right + 1) lst [] of
               Inl e \<Rightarrow> Inl e
             | Inr m2 \<Rightarrow> Inr ([(r, right) \<mapsto> lst @ skipped] ++ m1 ++ m2)))"
  by (subst traverse_right_from.simps [of rd h r stop step clr right skipped lst])
     (cases "skipped = []"; simp add: Let_def split: sum.splits)


text \<open>Induction along the calls of the two traversals.\<close>

lemma traverse_induct [case_names left right]:
  assumes "\<And>rd h r stop step clr left skipped lst.
      (step \<noteq> 0 \<Longrightarrow> in_range r stop step \<Longrightarrow> 0 \<le> left \<Longrightarrow> rd r left = Inr None \<Longrightarrow> lst \<noteq> [] \<Longrightarrow>
         P rd h (r + step) (ahead step r) step clr (left - 1) lst []) \<Longrightarrow>
      (\<And>m1. step \<noteq> 0 \<Longrightarrow> in_range r stop step \<Longrightarrow> 0 \<le> left \<Longrightarrow> rd r left = Inr None \<Longrightarrow>
         lst \<noteq> [] \<Longrightarrow>
         traverse_left_from rd h (r + step) (ahead step r) step clr (left - 1) lst [] = Inr m1 \<Longrightarrow>
         Q rd h (r + step) (ahead step r) step clr (left + 1) lst []) \<Longrightarrow>
      (\<And>x. step \<noteq> 0 \<Longrightarrow> in_range r stop step \<Longrightarrow> 0 \<le> left \<Longrightarrow> rd r left = Inr (Some x) \<Longrightarrow>
         color (h x) \<noteq> clr \<Longrightarrow> P rd h (r + step) stop step clr (left - 1) skipped [x]) \<Longrightarrow>
      P rd h r stop step clr left skipped lst"
    and "\<And>rd h r stop step clr right skipped lst.
      (step \<noteq> 0 \<Longrightarrow> in_range r stop step \<Longrightarrow> right < COLS \<Longrightarrow> rd r right = Inr None \<Longrightarrow>
         lst \<noteq> [] \<Longrightarrow>
         P rd h (r + step) (ahead step r) step clr (right - 1) lst []) \<Longrightarrow>
      (\<And>m1. step \<noteq> 0 \<Longrightarrow> in_range r stop step \<Longrightarrow> right < COLS \<Longrightarrow> rd r right = Inr None \<Longrightarrow>
         lst \<noteq> [] \<Longrightarrow>
         traverse_left_from rd h (r + step) (ahead step r) step clr (right - 1) lst [] = Inr m1 \<Longrightarrow>
         Q rd h (r + step) (ahead step r) step clr (right + 1) lst []) \<Longrightarrow>
      (\<And>x. step \<noteq> 0 \<Longrightarrow> in_range r stop step \<Longrightarrow> right < COLS \<Longrightarrow> rd r right = Inr (Some x) \<Longrightarrow>
         color (h x) \<noteq> clr \<Longrightarrow> Q rd h (r + step) stop step clr (right + 1) skipped [x]) \<Longrightarrow>
      Q rd h r stop step clr right skipped lst"
  shows "P rd h r stop step clr left skipped lst"
    and "Q rd h r stop step clr right skipped lst"
proof (induction rd h r stop step clr left skipped lst and rd h r stop step clr right skipped lst
       rule: traverse_left_from_traverse_right_from.induct)
  case (1 rd h r stop step clr left skipped lst)
  show ?case
  proof (rule assms(1))
    assume "step \<noteq> 0" "in_range r stop step" "0 \<le> left" "rd r left = Inr None" "lst \<noteq> []"
    then show "P rd h (r + step) (ahead step r) step clr (left - 1) lst []"
      by (intro "1.IH"(1)) auto
  next
    fix m1
    assume "step \<noteq> 0" "in_range r stop step" "0 \<le> left" "rd r left = Inr None" "lst \<noteq> []"
      "traverse_left_from rd h (r + step) (ahead step r) step clr (left - 1) lst [] = Inr m1"
    then show "Q rd h (r + step) (ahead step r) step clr (left + 1) lst []"
      by (intro "1.IH"(2)) auto
  next
    fix x
    assume "step \<noteq> 0" "in_range r stop step" "0 \<le> left" "rd r left = Inr (Some x)"
      "color (h x) \<noteq> clr"
    then show "P rd h (r + step) stop step clr (left - 1) skipped [x]"
      by (intro "1.IH"(3)) auto
  qed
next
  case (2 rd h r stop step clr right skipped lst)
  show ?case
  proof (rule assms(2))
    assume "step \<noteq> 0" "in_range r stop step" "right < COLS" "rd r right = Inr None" "lst \<noteq> []"
    then show "P rd h (r + step) (ahead step r) step clr (right - 1) lst []"
      by (intro "2.IH"(1)) auto
  next
    fix m1
    assume "step \<noteq> 0" "in_range r stop step" "right < COLS" "rd r right = Inr None" "lst \<noteq> []"
      "traverse_left_from rd h (r + step) (ahead step r) step clr (right - 1) lst [] = Inr m1"
    then show "Q rd h (r + step) (ahead step r) step clr (right + 1) lst []"
      by (intro "2.IH"(2)) auto
  next
    fix x
    assume "step \<noteq> 0" "in_range r stop step" "right < COLS" "rd r right = Inr (Some x)"
      "color (h x) \<noteq> clr"
    then show "Q rd h (r + step) stop step clr (right + 1) skipped [x]"
      by (intro "2.IH"(3)) auto
  qed
qed

subsection \<open>Every entry of a returned map is written by the traversal\<close>

lemma map_add3_cases:
  assumes "(a ++ m1 ++ m2) k = Some v"
  shows "m2 k = Some v \<or> m1 k = Some v \<or> a k = Some v"
  using assms by (auto simp: map_add_Some_iff)

lemma traverse_writes:
  "traverse_left_from rd h r stop step clr left skipped lst = Inr m \<Longrightarrow> m k = Some v \<Longrightarrow>
     writes_left rd h r stop step clr left skipped lst k v"
  "traverse_right_from rd h r stop step clr right skipped lst = Inr m \<Longrightarrow> m k = Some v \<Longrightarrow>
     writes_right rd h r stop step clr right skipped lst k v"
proof (induction rd h r stop step clr left skipped lst and rd h r stop step clr right skipped lst
       arbitrary: m and m rule: traverse_induct)
  case (left rd h r stop step clr left skipped lst)
  let ?T = "traverse_left_from rd h r stop step clr left skipped lst"
  note res = left.prems(1) and key = left.prems(2)
  show ?case
  proof (cases "step \<noteq> 0 \<and> in_range r stop step \<and> 0 \<le> left")
    case False
    show ?thesis
    proof (cases "step = 0")
      case True
      have "?T = Inl ValueError"
        by (rule left_stops(1) [where rd = rd and h = h, OF True])
      with res show ?thesis
        by simp
    next
      case nz: False
      with False have "\<not> in_range r stop step \<or> left < 0"
        by auto
      then have "?T = Inr Map.empty"
        by (rule left_stops(2) [where rd = rd and h = h, OF nz])
      with res key show ?thesis
        by auto
    qed
  next
    case True
    then have c: "step \<noteq> 0" "in_range r stop step" "0 \<le> left"
      by auto
    show ?thesis
    proof (cases "rd r left")
      case (Inl e)
      with left_stops(3) [where rd = rd and h = h, OF c] res show ?thesis
        by simp
    next
      case (Inr x)
      show ?thesis
      proof (cases x)
        case None
        with Inr have rd: "rd r left = Inr None"
          by simp
        show ?thesis
        proof (cases "lst = []")
          case True
          show ?thesis
          proof (cases "skipped = []")
            case True
            with left_lands [where rd = rd and h = h, OF c rd True \<open>lst = []\<close>] res key
            have "k = (r, left)" "v = (if skipped \<noteq> [] then lst @ skipped else lst)"
              using \<open>lst = []\<close> by (auto split: if_splits)
            moreover have "\<not> (skipped \<noteq> [] \<and> lst = [])"
              using True by simp
            ultimately show ?thesis
              using land_left [where rd = rd and h = h, OF c rd] by simp
          next
            case False
            with left_stops(5) [where rd = rd and h = h, OF c rd False \<open>lst = []\<close>] res key show ?thesis
              by auto
          qed
        next
          case False
          from left_jumps [where rd = rd and h = h, OF c rd False] res obtain m1 m2 where
            m1: "traverse_left_from rd h (r + step) (ahead step r) step clr (left - 1) lst [] = Inr m1"
            and m2: "traverse_right_from rd h (r + step) (ahead step r) step clr (left + 1) lst [] = Inr m2"
            and m: "m = [(r, left) \<mapsto> lst @ skipped] ++ m1 ++ m2"
            by (simp split: sum.splits)
          from key m have "([(r, left) \<mapsto> lst @ skipped] ++ m1 ++ m2) k = Some v"
            by simp
          from map_add3_cases [OF this]
          consider "m2 k = Some v" | "m1 k = Some v" | "[(r, left) \<mapsto> lst @ skipped] k = Some v"
            by blast
          then show ?thesis
          proof cases
            case 1
            from left.IH(2) [OF c rd False m1 m2 1] show ?thesis
              by (rule go_on_left_right [where rd = rd and h = h, OF c rd False])
          next
            case 2
            from left.IH(1) [OF c rd False m1 2] show ?thesis
              by (rule go_on_left_left [where rd = rd and h = h, OF c rd False])
          next
            case 3
            then have "k = (r, left)" "v = (if skipped \<noteq> [] then lst @ skipped else lst)"
              by (auto split: if_splits)
            moreover have "\<not> (skipped \<noteq> [] \<and> lst = [])"
              using False by simp
            ultimately show ?thesis
              using land_left [where rd = rd and h = h, OF c rd] by simp
          qed
        qed
      next
        case (Some x)
        with Inr have rd: "rd r left = Inr (Some x)"
          by simp
        show ?thesis
        proof (cases "color (h x) = clr")
          case True
          with left_stops(4) [where rd = rd and h = h, OF c rd] res key show ?thesis
            by auto
        next
          case False
          from left_passes [where rd = rd and h = h, OF c rd False] res
          have "traverse_left_from rd h (r + step) stop step clr (left - 1) skipped [x] = Inr m"
            by simp
          from left.IH(3) [OF c rd False this key] show ?thesis
            by (rule pass_left [where rd = rd and h = h, OF c rd False])
        qed
      qed
    qed
  qed
next
  case (right rd h r stop step clr right skipped lst)
  let ?T = "traverse_right_from rd h r stop step clr right skipped lst"
  note res = right.prems(1) and key = right.prems(2)
  show ?case
  proof (cases "step \<noteq> 0 \<and> in_range r stop step \<and> right < COLS")
    case False
    show ?thesis
    proof (cases "step = 0")
      case True
      have "?T = Inl ValueError"
        by (rule right_stops(1) [where rd = rd and h = h, OF True])
      with res show ?thesis
        by simp
    next
      case nz: False
      with False have "\<not> in_range r stop step \<or> COLS \<le> right"
        by auto
      then have "?T = Inr Map.empty"
        by (rule right_stops(2) [where rd = rd and h = h, OF nz])
      with res key show ?thesis
        by auto
    qed
  next
    case True
    then have c: "step \<noteq> 0" "in_range r stop step" "right < COLS"
      by auto
    show ?thesis
    proof (cases "rd r right")
      case (Inl e)
      with right_stops(3) [where rd = rd and h = h, OF c] res show ?thesis
        by simp
    next
      case (Inr x)
      show ?thesis
      proof (cases x)
        case None
        with Inr have rd: "rd r right = Inr None"
          by simp
        show ?thesis
        proof (cases "lst = []")
          case True
          show ?thesis
          proof (cases "skipped = []")
            case True
            with right_lands [where rd = rd and h = h, OF c rd True \<open>lst = []\<close>] res key
            have "k = (r, right)" "v = (if skipped \<noteq> [] then lst @ skipped else lst)"
              using \<open>lst = []\<close> by (auto split: if_splits)
            moreover have "\<not> (skipped \<noteq> [] \<and> lst = [])"
              using True by simp
            ultimately show ?thesis
              using land_right [where rd = rd and h = h, OF c rd] by simp
          next
            case False
            with right_stops(5) [where rd = rd and h = h, OF c rd False \<open>lst = []\<close>] res key show ?thesis
              by auto
          qed
        next
          case False
          from right_jumps [where rd = rd and h = h, OF c rd False] res obtain m1 m2 where
            m1: "traverse_left_from rd h (r + step) (ahead step r) step clr (right - 1) lst [] = Inr m1"
            and m2: "traverse_right_from rd h (r + step) (ahead step r) step clr (right + 1) lst [] = Inr m2"
            and m: "m = [(r, right) \<mapsto> lst @ skipped] ++ m1 ++ m2"
            by (simp split: sum.splits)
          from key m have "([(r, right) \<mapsto> lst @ skipped] ++ m1 ++ m2) k = Some v"
            by simp
          from map_add3_cases [OF this]
          consider "m2 k = Some v" | "m1 k = Some v" | "[(r, right) \<mapsto> lst @ skipped] k = Some v"
            by blast
          then show ?thesis
          proof cases
            case 1
            from right.IH(2) [OF c rd False m1 m2 1] show ?thesis
              by (rule go_on_right_right [where rd = rd and h = h, OF c rd False])
          next
            case 2
            from right.IH(1) [OF c rd False m1 2] show ?thesis
              by (rule go_on_right_left [where rd = rd and h = h, OF c rd False])
          next
            case 3
            then have "k = (r, right)" "v = (if skipped \<noteq> [] then lst @ skipped else lst)"
              by (auto split: if_splits)
            moreover have "\<not> (skipped \<noteq> [] \<and> lst = [])"
              using False by simp
            ultimately show ?thesis
              using land_right [where rd = rd and h = h, OF c rd] by simp
          qed
        qed
      next
        case (Some x)
        with Inr have rd: "rd r right = Inr (Some x)"
          by simp
        show ?thesis
        proof (cases "color (h x) = clr")
          case True
          with right_stops(4) [where rd = rd and h = h, OF c rd] res key show ?thesis
            by auto
        next
          case False
          from right_passes [where rd = rd and h = h, OF c rd False] res
          have "traverse_right_from rd h (r + step) stop step clr (right + 1) skipped [x] = Inr m"
            by simp
          from right.IH(3) [OF c rd False this key] show ?thesis
            by (rule pass_right [where rd = rd and h = h, OF c rd False])
        qed
      qed
    qed
  qed
qed

subsection \<open>Rows, columns and squares of the written entries\<close>

lemma writes_rows:
  shows "writes_left rd h r stop step clr left skipped lst k v \<Longrightarrow>
           (step = 1 \<longrightarrow> r \<le> fst k \<and> (fst k < stop \<or> fst k < ROWS)) \<and>
           (step = - 1 \<longrightarrow> fst k \<le> r \<and> (stop < fst k \<or> 0 < fst k))"
    and "writes_right rd h r stop step clr right skipped lst k v \<Longrightarrow>
           (step = 1 \<longrightarrow> r \<le> fst k \<and> (fst k < stop \<or> fst k < ROWS)) \<and>
           (step = - 1 \<longrightarrow> fst k \<le> r \<and> (stop < fst k \<or> 0 < fst k))"
  by (induction rule: writes_left_writes_right.inducts) (auto simp: ROWS_def)

lemma writes_cols:
  shows "writes_left rd h r stop step clr left skipped lst k v \<Longrightarrow> left < COLS \<Longrightarrow>
           0 \<le> snd k \<and> snd k < COLS"
    and "writes_right rd h r stop step clr right skipped lst k v \<Longrightarrow> 0 \<le> right \<Longrightarrow>
           0 \<le> snd k \<and> snd k < COLS"
  by (induction rule: writes_left_writes_right.inducts) auto

lemma writes_empty:
  shows "writes_left rd h r stop step clr left skipped lst k v \<Longrightarrow> rd (fst k) (snd k) = Inr None"
    and "writes_right rd h r stop step clr right skipped lst k v \<Longrightarrow> rd (fst k) (snd k) = Inr None"
  by (induction rule: writes_left_writes_right.inducts) auto

text \<open>A continuation writes nothing at its first row.\<close>

lemma continuation_rows:
  shows "writes_left rd h r stop step clr left skipped [] k v \<Longrightarrow> skipped \<noteq> [] \<Longrightarrow>
           (step = 1 \<longrightarrow> r < fst k) \<and> (step = - 1 \<longrightarrow> fst k < r)"
    and "writes_right rd h r stop step clr right skipped [] k v \<Longrightarrow> skipped \<noteq> [] \<Longrightarrow>
           (step = 1 \<longrightarrow> r < fst k) \<and> (step = - 1 \<longrightarrow> fst k < r)"
   apply (erule writes_left.cases; simp)
   apply (drule writes_rows(1); auto)
  apply (erule writes_right.cases; simp)
  apply (drule writes_rows(2); auto)
  done


subsection \<open>The entries of \<^verbatim>\<open>get_valid_moves\<close>\<close>

lemma case_sum_Inr:
  assumes "(case x of Inl e \<Rightarrow> Inl e | Inr a \<Rightarrow> f a) = Inr y"
  obtains a where "x = Inr a" and "f a = Inr y"
  using assms by (cases x) auto

lemma valid_moves_writes:
  assumes "valid_moves_via rd h p = Inr m" and "m k = Some v"
  shows "(color (h p) = PLAYER_COLOR_BOTTOM \<or> king (h p)) \<and>
           (writes_left rd h (row (h p) - 1) (max (row (h p) - 3) (- 1)) (- 1) (color (h p))
              (col (h p) - 1) [] [] k v \<or>
            writes_right rd h (row (h p) - 1) (max (row (h p) - 3) (- 1)) (- 1) (color (h p))
              (col (h p) + 1) [] [] k v) \<or>
         (color (h p) = PLAYER_COLOR_TOP \<or> king (h p)) \<and>
           (writes_left rd h (row (h p) + 1) (min (row (h p) + 3) ROWS) 1 (color (h p))
              (col (h p) - 1) [] [] k v \<or>
            writes_right rd h (row (h p) + 1) (min (row (h p) + 3) ROWS) 1 (color (h p))
              (col (h p) + 1) [] [] k v)"
proof -
  let ?up = "color (h p) = PLAYER_COLOR_BOTTOM \<or> king (h p)"
  let ?down = "color (h p) = PLAYER_COLOR_TOP \<or> king (h p)"
  let ?ul = "traverse_left_from rd h (row (h p) - 1) (max (row (h p) - 3) (- 1)) (- 1) (color (h p))
              (col (h p) - 1) [] []"
  let ?ur = "traverse_right_from rd h (row (h p) - 1) (max (row (h p) - 3) (- 1)) (- 1) (color (h p))
              (col (h p) + 1) [] []"
  let ?dl = "traverse_left_from rd h (row (h p) + 1) (min (row (h p) + 3) ROWS) 1 (color (h p))
              (col (h p) - 1) [] []"
  let ?dr = "traverse_right_from rd h (row (h p) + 1) (min (row (h p) + 3) ROWS) 1 (color (h p))
              (col (h p) + 1) [] []"
  obtain mu where mu: "(if ?up then (case ?ul of Inl e \<Rightarrow> Inl e
                          | Inr m1 \<Rightarrow> (case ?ur of Inl e \<Rightarrow> Inl e | Inr m2 \<Rightarrow> Inr (Map.empty ++ m1 ++ m2)))
                        else Inr Map.empty) = Inr mu"
    and md: "(if ?down then (case ?dl of Inl e \<Rightarrow> Inl e
                          | Inr m3 \<Rightarrow> (case ?dr of Inl e \<Rightarrow> Inl e | Inr m4 \<Rightarrow> Inr (mu ++ m3 ++ m4)))
                        else Inr mu) = Inr m"
    using assms(1) [unfolded valid_moves_via_def traverse_left_def traverse_right_def Let_def]
    by (rule case_sum_Inr)
  have up: "?up \<and> (writes_left rd h (row (h p) - 1) (max (row (h p) - 3) (- 1)) (- 1) (color (h p))
              (col (h p) - 1) [] [] k v \<or>
            writes_right rd h (row (h p) - 1) (max (row (h p) - 3) (- 1)) (- 1) (color (h p))
              (col (h p) + 1) [] [] k v)" if "mu k = Some v"
  proof (cases ?up)
    case True
    with mu have "(case ?ul of Inl e \<Rightarrow> Inl e
             | Inr m1 \<Rightarrow> (case ?ur of Inl e \<Rightarrow> Inl e | Inr m2 \<Rightarrow> Inr (Map.empty ++ m1 ++ m2))) = Inr mu"
      by simp
    then obtain m1 where m1: "?ul = Inr m1"
      and rest: "(case ?ur of Inl e \<Rightarrow> Inl e | Inr m2 \<Rightarrow> Inr (Map.empty ++ m1 ++ m2)) = Inr mu"
      by (rule case_sum_Inr)
    from rest obtain m2 where "?ur = Inr m2" "Inr (Map.empty ++ m1 ++ m2) = (Inr mu :: error + moves)"
      by (rule case_sum_Inr)
    then have m2: "?ur = Inr m2" and "mu = Map.empty ++ m1 ++ m2"
      by simp_all
    with that have "(Map.empty ++ m1 ++ m2) k = Some v"
      by simp
    from map_add3_cases [OF this] have "m2 k = Some v \<or> m1 k = Some v"
      by simp
    with traverse_writes(1) [OF m1] traverse_writes(2) [OF m2] True show ?thesis
      by blast
  next
    case False
    with mu that show ?thesis
      by auto
  qed
  show ?thesis
  proof (cases ?down)
    case True
    with md have "(case ?dl of Inl e \<Rightarrow> Inl e
             | Inr m3 \<Rightarrow> (case ?dr of Inl e \<Rightarrow> Inl e | Inr m4 \<Rightarrow> Inr (mu ++ m3 ++ m4))) = Inr m"
      by simp
    then obtain m3 where m3: "?dl = Inr m3"
      and rest: "(case ?dr of Inl e \<Rightarrow> Inl e | Inr m4 \<Rightarrow> Inr (mu ++ m3 ++ m4)) = Inr m"
      by (rule case_sum_Inr)
    from rest obtain m4 where "?dr = Inr m4" "Inr (mu ++ m3 ++ m4) = (Inr m :: error + moves)"
      by (rule case_sum_Inr)
    then have m4: "?dr = Inr m4" and "m = mu ++ m3 ++ m4"
      by simp_all
    with assms(2) have "(mu ++ m3 ++ m4) k = Some v"
      by simp
    from map_add3_cases [OF this] have "m4 k = Some v \<or> m3 k = Some v \<or> mu k = Some v"
      by simp
    with traverse_writes(1) [OF m3] traverse_writes(2) [OF m4] up True show ?thesis
      by blast
  next
    case False
    with md have "m = mu"
      by simp
    with assms(2) up show ?thesis
      by simp
  qed
qed

subsection \<open>The traversals return when every read inside the board does\<close>

lemma traverse_no_error:
  assumes rd: "\<And>r c. 0 \<le> r \<Longrightarrow> r < ROWS \<Longrightarrow> 0 \<le> c \<Longrightarrow> c < COLS \<Longrightarrow> \<exists>x. rd r c = Inr x"
  shows "step = 1 \<and> 0 \<le> r \<and> stop \<le> ROWS \<or> step = - 1 \<and> r < ROWS \<and> - 1 \<le> stop \<Longrightarrow>
           left < COLS \<Longrightarrow>
           \<exists>m. traverse_left_from rd h r stop step clr left skipped lst = Inr m"
    and "step = 1 \<and> 0 \<le> r \<and> stop \<le> ROWS \<or> step = - 1 \<and> r < ROWS \<and> - 1 \<le> stop \<Longrightarrow>
           0 \<le> right \<Longrightarrow>
           \<exists>m. traverse_right_from rd h r stop step clr right skipped lst = Inr m"
  using rd
proof (induction rd h r stop step clr left skipped lst and rd h r stop step clr right skipped lst
       rule: traverse_induct)
  case (left rd h r stop step clr left skipped lst)
  let ?T = "traverse_left_from rd h r stop step clr left skipped lst"
  note dir = left.prems(1) and lc = left.prems(2) and rd = left.prems(3)
  from dir have nz: "step \<noteq> 0"
    by auto
  show ?case
  proof (cases "in_range r stop step \<and> 0 \<le> left")
    case False
    then have "\<not> in_range r stop step \<or> left < 0"
      by auto
    then have "?T = Inr Map.empty"
      by (rule left_stops(2) [where rd = rd and h = h, OF nz])
    then show ?thesis
      by simp
  next
    case True
    then have c: "in_range r stop step" "0 \<le> left"
      by auto
    with dir have "0 \<le> r" "r < ROWS"
      by auto
    from rd [OF this c(2) lc] obtain x where x: "rd r left = Inr x"
      by blast
    have next_dir: "step = 1 \<and> 0 \<le> r + step \<and> stop \<le> ROWS \<or>
                    step = - 1 \<and> r + step < ROWS \<and> - 1 \<le> stop"
      using dir c by auto
    have ahead_dir: "step = 1 \<and> 0 \<le> r + step \<and> ahead step r \<le> ROWS \<or>
                     step = - 1 \<and> r + step < ROWS \<and> - 1 \<le> ahead step r"
      using dir c by auto
    show ?thesis
    proof (cases x)
      case None
      with x have e: "rd r left = Inr None"
        by simp
      show ?thesis
      proof (cases "lst = []")
        case True
        show ?thesis
        proof (cases "skipped = []")
          case True
          from left_lands [where rd = rd and h = h, OF nz c e True \<open>lst = []\<close>] show ?thesis
            by simp
        next
          case False
          from left_stops(5) [where rd = rd and h = h, OF nz c e False \<open>lst = []\<close>] show ?thesis
            by simp
        qed
      next
        case False
        from left.IH(1) [OF nz c e False ahead_dir _ rd] lc obtain m1 where
          m1: "traverse_left_from rd h (r + step) (ahead step r) step clr (left - 1) lst [] = Inr m1"
          by auto
        from left.IH(2) [OF nz c e False m1 ahead_dir _ rd] c obtain m2 where
          m2: "traverse_right_from rd h (r + step) (ahead step r) step clr (left + 1) lst [] = Inr m2"
          by auto
        from left_jumps [where rd = rd and h = h, OF nz c e False] m1 m2 show ?thesis
          by simp
      qed
    next
      case (Some y)
      with x have e: "rd r left = Inr (Some y)"
        by simp
      show ?thesis
      proof (cases "color (h y) = clr")
        case True
        from left_stops(4) [where rd = rd and h = h, OF nz c e True] show ?thesis
          by simp
      next
        case False
        from left.IH(3) [OF nz c e False next_dir _ rd] lc
        have "\<exists>m. traverse_left_from rd h (r + step) stop step clr (left - 1) skipped [y] = Inr m"
          by auto
        with left_passes [where rd = rd and h = h, OF nz c e False] show ?thesis
          by simp
      qed
    qed
  qed
next
  case (right rd h r stop step clr right skipped lst)
  let ?T = "traverse_right_from rd h r stop step clr right skipped lst"
  note dir = right.prems(1) and lc = right.prems(2) and rd = right.prems(3)
  from dir have nz: "step \<noteq> 0"
    by auto
  show ?case
  proof (cases "in_range r stop step \<and> right < COLS")
    case False
    then have "\<not> in_range r stop step \<or> COLS \<le> right"
      by auto
    then have "?T = Inr Map.empty"
      by (rule right_stops(2) [where rd = rd and h = h, OF nz])
    then show ?thesis
      by simp
  next
    case True
    then have c: "in_range r stop step" "right < COLS"
      by auto
    with dir have "0 \<le> r" "r < ROWS"
      by auto
    from rd [OF this lc c(2)] obtain x where x: "rd r right = Inr x"
      by blast
    have next_dir: "step = 1 \<and> 0 \<le> r + step \<and> stop \<le> ROWS \<or>
                    step = - 1 \<and> r + step < ROWS \<and> - 1 \<le> stop"
      using dir c by auto
    have ahead_dir: "step = 1 \<and> 0 \<le> r + step \<and> ahead step r \<le> ROWS \<or>
                     step = - 1 \<and> r + step < ROWS \<and> - 1 \<le> ahead step r"
      using dir c by auto
    show ?thesis
    proof (cases x)
      case None
      with x have e: "rd r right = Inr None"
        by simp
      show ?thesis
      proof (cases "lst = []")
        case True
        show ?thesis
        proof (cases "skipped = []")
          case True
          from right_lands [where rd = rd and h = h, OF nz c e True \<open>lst = []\<close>] show ?thesis
            by simp
        next
          case False
          from right_stops(5) [where rd = rd and h = h, OF nz c e False \<open>lst = []\<close>] show ?thesis
            by simp
        qed
      next
        case False
        from right.IH(1) [OF nz c e False ahead_dir _ rd] c obtain m1 where
          m1: "traverse_left_from rd h (r + step) (ahead step r) step clr (right - 1) lst [] = Inr m1"
          by auto
        from right.IH(2) [OF nz c e False m1 ahead_dir _ rd] lc obtain m2 where
          m2: "traverse_right_from rd h (r + step) (ahead step r) step clr (right + 1) lst [] = Inr m2"
          by auto
        from right_jumps [where rd = rd and h = h, OF nz c e False] m1 m2 show ?thesis
          by simp
      qed
    next
      case (Some y)
      with x have e: "rd r right = Inr (Some y)"
        by simp
      show ?thesis
      proof (cases "color (h y) = clr")
        case True
        from right_stops(4) [where rd = rd and h = h, OF nz c e True] show ?thesis
          by simp
      next
        case False
        from right.IH(3) [OF nz c e False next_dir _ rd] lc
        have "\<exists>m. traverse_right_from rd h (r + step) stop step clr (right + 1) skipped [y] = Inr m"
          by auto
        with right_passes [where rd = rd and h = h, OF nz c e False] show ?thesis
          by simp
      qed
    qed
  qed
qed

subsection \<open>A read that succeeds more often gives the same map\<close>

lemma traverse_agree:
  shows "traverse_left_from rd h r stop step clr left skipped lst = Inr m \<Longrightarrow>
           (\<And>r c x. rd r c = Inr x \<Longrightarrow> rd' r c = Inr x) \<Longrightarrow>
           traverse_left_from rd' h r stop step clr left skipped lst = Inr m"
    and "traverse_right_from rd h r stop step clr right skipped lst = Inr m \<Longrightarrow>
           (\<And>r c x. rd r c = Inr x \<Longrightarrow> rd' r c = Inr x) \<Longrightarrow>
           traverse_right_from rd' h r stop step clr right skipped lst = Inr m"
proof (induction rd h r stop step clr left skipped lst and rd h r stop step clr right skipped lst
       arbitrary: m and m rule: traverse_induct)
  case (left rd h r stop step clr left skipped lst)
  let ?T = "traverse_left_from rd h r stop step clr left skipped lst"
  let ?T' = "traverse_left_from rd' h r stop step clr left skipped lst"
  note res = left.prems(1) and agree = left.prems(2)
  show ?case
  proof (cases "step = 0")
    case True
    have "?T = Inl ValueError"
      by (rule left_stops(1) [OF True])
    with res show ?thesis
      by simp
  next
    case nz: False
    show ?thesis
    proof (cases "in_range r stop step \<and> 0 \<le> left")
      case False
      then have out: "\<not> in_range r stop step \<or> left < 0"
        by auto
      from left_stops(2) [where rd = rd and h = h, OF nz out]
        left_stops(2) [where rd = rd' and h = h, OF nz out] res
      show ?thesis
        by simp
    next
      case True
      then have c: "in_range r stop step" "0 \<le> left"
        by auto
      show ?thesis
      proof (cases "rd r left")
        case (Inl e)
        from left_stops(3) [where rd = rd and h = h, OF nz c Inl] res show ?thesis
          by simp
      next
        case (Inr x)
        show ?thesis
        proof (cases x)
          case None
          with Inr have e: "rd r left = Inr None"
            by simp
          then have e': "rd' r left = Inr None"
            by (rule agree)
          show ?thesis
          proof (cases "lst = []")
            case True
            show ?thesis
            proof (cases "skipped = []")
              case True
              from left_lands [where rd = rd and h = h, OF nz c e True \<open>lst = []\<close>]
                left_lands [where rd = rd' and h = h, OF nz c e' True \<open>lst = []\<close>] res
              show ?thesis
                by simp
            next
              case False
              from left_stops(5) [where rd = rd and h = h, OF nz c e False \<open>lst = []\<close>]
                left_stops(5) [where rd = rd' and h = h, OF nz c e' False \<open>lst = []\<close>] res
              show ?thesis
                by simp
            qed
          next
            case False
            from left_jumps [where rd = rd and h = h, OF nz c e False] res obtain m1 m2 where
              m1: "traverse_left_from rd h (r + step) (ahead step r) step clr (left - 1) lst [] = Inr m1"
              and m2: "traverse_right_from rd h (r + step) (ahead step r) step clr (left + 1) lst [] = Inr m2"
              and m: "m = [(r, left) \<mapsto> lst @ skipped] ++ m1 ++ m2"
              by (simp split: sum.splits)
            from left.IH(1) [OF nz c e False m1 agree]
            have m1': "traverse_left_from rd' h (r + step) (ahead step r) step clr (left - 1) lst [] = Inr m1"
              by simp
            from left.IH(2) [OF nz c e False m1 m2 agree]
            have m2': "traverse_right_from rd' h (r + step) (ahead step r) step clr (left + 1) lst [] = Inr m2"
              by simp
            from left_jumps [where rd = rd' and h = h, OF nz c e' False] m1' m2' m show ?thesis
              by simp
          qed
        next
          case (Some y)
          with Inr have e: "rd r left = Inr (Some y)"
            by simp
          then have e': "rd' r left = Inr (Some y)"
            by (rule agree)
          show ?thesis
          proof (cases "color (h y) = clr")
            case True
            from left_stops(4) [where rd = rd and h = h, OF nz c e True]
              left_stops(4) [where rd = rd' and h = h, OF nz c e' True] res
            show ?thesis
              by simp
          next
            case False
            from left_passes [where rd = rd and h = h, OF nz c e False] res
            have "traverse_left_from rd h (r + step) stop step clr (left - 1) skipped [y] = Inr m"
              by simp
            from left.IH(3) [OF nz c e False this agree]
              left_passes [where rd = rd' and h = h, OF nz c e' False]
            show ?thesis
              by simp
          qed
        qed
      qed
    qed
  qed
next
  case (right rd h r stop step clr right skipped lst)
  let ?T = "traverse_right_from rd h r stop step clr right skipped lst"
  let ?T' = "traverse_right_from rd' h r stop step clr right skipped lst"
  note res = right.prems(1) and agree = right.prems(2)
  show ?case
  proof (cases "step = 0")
    case True
    have "?T = Inl ValueError"
      by (rule right_stops(1) [OF True])
    with res show ?thesis
      by simp
  next
    case nz: False
    show ?thesis
    proof (cases "in_range r stop step \<and> right < COLS")
      case False
      then have out: "\<not> in_range r stop step \<or> COLS \<le> right"
        by auto
      from right_stops(2) [where rd = rd and h = h, OF nz out]
        right_stops(2) [where rd = rd' and h = h, OF nz out] res
      show ?thesis
        by simp
    next
      case True
      then have c: "in_range r stop step" "right < COLS"
        by auto
      show ?thesis
      proof (cases "rd r right")
        case (Inl e)
        from right_stops(3) [where rd = rd and h = h, OF nz c Inl] res show ?thesis
          by simp
      next
        case (Inr x)
        show ?thesis
        proof (cases x)
          case None
          with Inr have e: "rd r right = Inr None"
            by simp
          then have e': "rd' r right = Inr None"
            by (rule agree)
          show ?thesis
          proof (cases "lst = []")
            case True
            show ?thesis
            proof (cases "skipped = []")
              case True
              from right_lands [where rd = rd and h = h, OF nz c e True \<open>lst = []\<close>]
                right_lands [where rd = rd' and h = h, OF nz c e' True \<open>lst = []\<close>] res
              show ?thesis
                by simp
            next
              case False
              from right_stops(5) [where rd = rd and h = h, OF nz c e False \<open>lst = []\<close>]
                right_stops(5) [where rd = rd' and h = h, OF nz c e' False \<open>lst = []\<close>] res
              show ?thesis
                by simp
            qed
          next
            case False
            from right_jumps [where rd = rd and h = h, OF nz c e False] res obtain m1 m2 where
              m1: "traverse_left_from rd h (r + step) (ahead step r) step clr (right - 1) lst [] = Inr m1"
              and m2: "traverse_right_from rd h (r + step) (ahead step r) step clr (right + 1) lst [] = Inr m2"
              and m: "m = [(r, right) \<mapsto> lst @ skipped] ++ m1 ++ m2"
              by (simp split: sum.splits)
            from right.IH(1) [OF nz c e False m1 agree]
            have m1': "traverse_left_from rd' h (r + step) (ahead step r) step clr (right - 1) lst [] = Inr m1"
              by simp
            from right.IH(2) [OF nz c e False m1 m2 agree]
            have m2': "traverse_right_from rd' h (r + step) (ahead step r) step clr (right + 1) lst [] = Inr m2"
              by simp
            from right_jumps [where rd = rd' and h = h, OF nz c e' False] m1' m2' m show ?thesis
              by simp
          qed
        next
          case (Some y)
          with Inr have e: "rd r right = Inr (Some y)"
            by simp
          then have e': "rd' r right = Inr (Some y)"
            by (rule agree)
          show ?thesis
          proof (cases "color (h y) = clr")
            case True
            from right_stops(4) [where rd = rd and h = h, OF nz c e True]
              right_stops(4) [where rd = rd' and h = h, OF nz c e' True] res
            show ?thesis
              by simp
          next
            case False
            from right_passes [where rd = rd and h = h, OF nz c e False] res
            have "traverse_right_from rd h (r + step) stop step clr (right + 1) skipped [y] = Inr m"
              by simp
            from right.IH(3) [OF nz c e False this agree]
              right_passes [where rd = rd' and h = h, OF nz c e' False]
            show ?thesis
              by simp
          qed
        qed
      qed
    qed
  qed
qed

subsection \<open>Destinations are empty squares of the board\<close>

lemma checked_cell_get_cell:
  "checked_cell g r c = Inr x \<Longrightarrow> get_cell g r c = Inr x"
  by (auto simp: checked_cell_def get_cell_def getitem_in_bounds split: if_splits)

lemma checked_cell_in_bounds:
  assumes "grid_ok g" "0 \<le> r" "r < ROWS" "0 \<le> c" "c < COLS"
  shows "checked_cell g r c = Inr (g ! nat r ! nat c)"
proof -
  have "r < int (length g)"
    using assms unfolding grid_ok_def by linarith
  moreover have "c < int (length (g ! nat r))"
    using assms grid_ok_nth [of g r] by simp
  ultimately show ?thesis
    using assms by (simp add: checked_cell_def)
qed

lemma four_calls_return:
  fixes x1 x2 x3 x4 :: "error + moves"
  assumes "x1 = Inr m1" "x2 = Inr m2" "x3 = Inr m3" "x4 = Inr m4"
  shows "\<exists>m. (case (if A then (case x1 of Inl e \<Rightarrow> Inl e
                          | Inr m1 \<Rightarrow> (case x2 of Inl e \<Rightarrow> Inl e | Inr m2 \<Rightarrow> Inr (Map.empty ++ m1 ++ m2)))
                   else Inr Map.empty) of
               Inl e \<Rightarrow> Inl e
             | Inr mvs1 \<Rightarrow>
                 if B then (case x3 of Inl e \<Rightarrow> Inl e
                            | Inr m3 \<Rightarrow> (case x4 of Inl e \<Rightarrow> Inl e | Inr m4 \<Rightarrow> Inr (mvs1 ++ m3 ++ m4)))
                 else Inr mvs1) = Inr m"
  using assms by simp

lemma valid_moves_no_error:
  assumes rd: "\<And>r c. 0 \<le> r \<Longrightarrow> r < ROWS \<Longrightarrow> 0 \<le> c \<Longrightarrow> c < COLS \<Longrightarrow> \<exists>x. rd r c = Inr x"
    and p: "0 \<le> row (h p)" "row (h p) < ROWS" "0 \<le> col (h p)" "col (h p) < COLS"
  shows "\<exists>m. valid_moves_via rd h p = Inr m"
proof -
  have up: "(- 1 :: int) = 1 \<and> 0 \<le> row (h p) - 1 \<and> max (row (h p) - 3) (- 1) \<le> ROWS \<or>
            (- 1 :: int) = - 1 \<and> row (h p) - 1 < ROWS \<and> - 1 \<le> max (row (h p) - 3) (- 1)"
    using p by simp
  have down: "(1 :: int) = 1 \<and> 0 \<le> row (h p) + 1 \<and> min (row (h p) + 3) ROWS \<le> ROWS \<or>
              (1 :: int) = - 1 \<and> row (h p) + 1 < ROWS \<and> - 1 \<le> min (row (h p) + 3) ROWS"
    using p by simp
  have l: "col (h p) - 1 < COLS" and r: "0 \<le> col (h p) + 1"
    using p by simp_all
  from traverse_no_error(1) [where rd = rd and h = h, OF rd up l] obtain m1 where
    "traverse_left_from rd h (row (h p) - 1) (max (row (h p) - 3) (- 1)) (- 1) (color (h p))
       (col (h p) - 1) [] [] = Inr m1"
    by blast
  moreover from traverse_no_error(2) [where rd = rd and h = h, OF rd up r] obtain m2 where
    "traverse_right_from rd h (row (h p) - 1) (max (row (h p) - 3) (- 1)) (- 1) (color (h p))
       (col (h p) + 1) [] [] = Inr m2"
    by blast
  moreover from traverse_no_error(1) [where rd = rd and h = h, OF rd down l] obtain m3 where
    "traverse_left_from rd h (row (h p) + 1) (min (row (h p) + 3) ROWS) 1 (color (h p))
       (col (h p) - 1) [] [] = Inr m3"
    by blast
  moreover from traverse_no_error(2) [where rd = rd and h = h, OF rd down r] obtain m4 where
    "traverse_right_from rd h (row (h p) + 1) (min (row (h p) + 3) ROWS) 1 (color (h p))
       (col (h p) + 1) [] [] = Inr m4"
    by blast
  ultimately show ?thesis
    unfolding valid_moves_via_def traverse_left_def traverse_right_def Let_def
    by (rule four_calls_return)
qed


lemma four_calls_agree:
  fixes x1 x2 x3 x4 y1 y2 y3 y4 :: "error + moves"
  assumes "(case (if A then (case x1 of Inl e \<Rightarrow> Inl e
                          | Inr m1 \<Rightarrow> (case x2 of Inl e \<Rightarrow> Inl e | Inr m2 \<Rightarrow> Inr (Map.empty ++ m1 ++ m2)))
                   else Inr Map.empty) of
               Inl e \<Rightarrow> Inl e
             | Inr mvs1 \<Rightarrow>
                 if B then (case x3 of Inl e \<Rightarrow> Inl e
                            | Inr m3 \<Rightarrow> (case x4 of Inl e \<Rightarrow> Inl e | Inr m4 \<Rightarrow> Inr (mvs1 ++ m3 ++ m4)))
                 else Inr mvs1) = Inr m"
    and "\<And>m. x1 = Inr m \<Longrightarrow> y1 = Inr m" "\<And>m. x2 = Inr m \<Longrightarrow> y2 = Inr m"
    and "\<And>m. x3 = Inr m \<Longrightarrow> y3 = Inr m" "\<And>m. x4 = Inr m \<Longrightarrow> y4 = Inr m"
  shows "(case (if A then (case y1 of Inl e \<Rightarrow> Inl e
                          | Inr m1 \<Rightarrow> (case y2 of Inl e \<Rightarrow> Inl e | Inr m2 \<Rightarrow> Inr (Map.empty ++ m1 ++ m2)))
                   else Inr Map.empty) of
               Inl e \<Rightarrow> Inl e
             | Inr mvs1 \<Rightarrow>
                 if B then (case y3 of Inl e \<Rightarrow> Inl e
                            | Inr m3 \<Rightarrow> (case y4 of Inl e \<Rightarrow> Inl e | Inr m4 \<Rightarrow> Inr (mvs1 ++ m3 ++ m4)))
                 else Inr mvs1) = Inr m"
  using assms by (cases x1; cases x2; cases x3; cases x4; cases A; cases B; simp)

lemma valid_moves_agree:
  assumes "valid_moves_via rd h p = Inr m"
    and agree: "\<And>r c x. rd r c = Inr x \<Longrightarrow> rd' r c = Inr x"
  shows "valid_moves_via rd' h p = Inr m"
  using assms(1) unfolding valid_moves_via_def traverse_left_def traverse_right_def Let_def
  by (rule four_calls_agree) (erule traverse_agree, erule agree)+

text \<open>
  C5. On a well-formed grid and for a piece whose stored position is on the board,
  \<^verbatim>\<open>get_valid_moves\<close> returns a map; the traversal with every grid index checked against
  the bounds returns the same map, so no index read is out of bounds; and every
  destination of the map is a square of the board that is empty.
\<close>

theorem moves_stay_on_empty_squares:
  assumes "grid_ok (board b)" and "in_bounds b p"
  shows "\<exists>m. get_valid_moves b p = Inr m \<and> checked_valid_moves b p = Inr m \<and>
           (\<forall>r c v. m (r, c) = Some v \<longrightarrow>
              0 \<le> r \<and> r < ROWS \<and> 0 \<le> c \<and> c < COLS \<and> get_piece b r c = Inr None)"
proof -
  have p: "0 \<le> row (objs b p)" "row (objs b p) < ROWS" "0 \<le> col (objs b p)" "col (objs b p) < COLS"
    using assms(2) by (simp_all add: in_bounds_def)
  have "\<exists>x. checked_cell (board b) r c = Inr x" if "0 \<le> r" "r < ROWS" "0 \<le> c" "c < COLS" for r c
    using checked_cell_in_bounds [OF assms(1) that] by simp
  from valid_moves_no_error [where rd = "checked_cell (board b)" and h = "objs b", OF this p]
  obtain m where checked: "checked_valid_moves b p = Inr m"
    by (auto simp: checked_valid_moves_def)
  then have plain: "get_valid_moves b p = Inr m"
    unfolding checked_valid_moves_def get_valid_moves_def
    by (rule valid_moves_agree) (rule checked_cell_get_cell)
  have "0 \<le> r \<and> r < ROWS \<and> 0 \<le> c \<and> c < COLS \<and> get_piece b r c = Inr None"
    if key: "m (r, c) = Some v" for r c v
  proof -
    let ?rd = "get_cell (board b)" and ?h = "objs b"
    let ?row = "row (objs b p)" and ?col = "col (objs b p)" and ?clr = "color (objs b p)"
    from valid_moves_writes [OF plain [unfolded get_valid_moves_def] key]
    consider "writes_left ?rd ?h (?row - 1) (max (?row - 3) (- 1)) (- 1) ?clr (?col - 1) [] [] (r, c) v"
      | "writes_right ?rd ?h (?row - 1) (max (?row - 3) (- 1)) (- 1) ?clr (?col + 1) [] [] (r, c) v"
      | "writes_left ?rd ?h (?row + 1) (min (?row + 3) ROWS) 1 ?clr (?col - 1) [] [] (r, c) v"
      | "writes_right ?rd ?h (?row + 1) (min (?row + 3) ROWS) 1 ?clr (?col + 1) [] [] (r, c) v"
      by blast
    then show ?thesis
    proof cases
      case 1
      from writes_rows(1) [OF 1] writes_cols(1) [OF 1] writes_empty(1) [OF 1] p show ?thesis
        by (auto simp: get_piece_def)
    next
      case 2
      from writes_rows(2) [OF 2] writes_cols(2) [OF 2] writes_empty(2) [OF 2] p show ?thesis
        by (auto simp: get_piece_def)
    next
      case 3
      from writes_rows(1) [OF 3] writes_cols(1) [OF 3] writes_empty(1) [OF 3] p show ?thesis
        by (auto simp: get_piece_def)
    next
      case 4
      from writes_rows(2) [OF 4] writes_cols(2) [OF 4] writes_empty(2) [OF 4] p show ?thesis
        by (auto simp: get_piece_def)
    qed
  qed
  with checked plain show ?thesis
    by blast
qed

lemma up_to_row0_moves:
  "case get_valid_moves up_to_row0 1 of
     Inl e \<Rightarrow> False
   | Inr m \<Rightarrow> m (2, 3) = Some [2] \<and> m (3, 0) = Some [] \<and> m (0, 5) = None"
  by code_simp

lemma up_to_row0_ok:
  "grid_ok (board up_to_row0) \<and> in_bounds up_to_row0 1"
  by code_simp

text \<open>The bottom piece of \<open>up_to_row0\<close> jumps from (4, 1) to the empty square (2, 3).\<close>

theorem moves_stay_on_empty_squares_witness:
  "grid_ok (board up_to_row0) \<and> in_bounds up_to_row0 1 \<and>
   (\<exists>m. get_valid_moves up_to_row0 1 = Inr m \<and> checked_valid_moves up_to_row0 1 = Inr m \<and>
        m (2, 3) = Some [2] \<and> (0::int) \<le> 2 \<and> 2 < ROWS \<and> (0::int) \<le> 3 \<and> 3 < COLS \<and>
        get_piece up_to_row0 2 3 = Inr None)"
proof -
  have ok: "grid_ok (board up_to_row0)" "in_bounds up_to_row0 1"
    using up_to_row0_ok by simp_all
  from moves_stay_on_empty_squares [OF ok] obtain m where
    m: "get_valid_moves up_to_row0 1 = Inr m" "checked_valid_moves up_to_row0 1 = Inr m"
    and keys: "\<forall>r c v. m (r, c) = Some v \<longrightarrow>
                0 \<le> r \<and> r < ROWS \<and> 0 \<le> c \<and> c < COLS \<and> get_piece up_to_row0 r c = Inr None"
    by blast
  from up_to_row0_moves m(1) have "m (2, 3) = Some [2]"
    by simp
  with keys m ok show ?thesis
    by blast
qed

subsection \<open>Direction of travel\<close>

text \<open>
  C6. Every destination that \<^verbatim>\<open>get_valid_moves\<close> returns for a piece that is not a king
  lies on a row strictly above the piece (smaller index) when the piece has the bottom
  colour, and strictly below it (greater index) when it has the top colour. For any
  piece, king or not, a destination lies on another row than the piece.
\<close>

theorem moves_follow_direction:
  assumes "get_valid_moves b p = Inr m" and "m (r, c) = Some v"
  shows "(\<not> king (objs b p) \<and> color (objs b p) = PLAYER_COLOR_BOTTOM \<longrightarrow> r < row (objs b p)) \<and>
         (\<not> king (objs b p) \<and> color (objs b p) = PLAYER_COLOR_TOP \<longrightarrow> row (objs b p) < r) \<and>
         r \<noteq> row (objs b p)"
proof -
  let ?rd = "get_cell (board b)" and ?h = "objs b"
  let ?row = "row (objs b p)" and ?col = "col (objs b p)" and ?clr = "color (objs b p)"
  from valid_moves_writes [OF assms(1) [unfolded get_valid_moves_def] assms(2)]
  consider
    (ul) "?clr = PLAYER_COLOR_BOTTOM \<or> king (objs b p)"
      "writes_left ?rd ?h (?row - 1) (max (?row - 3) (- 1)) (- 1) ?clr (?col - 1) [] [] (r, c) v"
    | (ur) "?clr = PLAYER_COLOR_BOTTOM \<or> king (objs b p)"
      "writes_right ?rd ?h (?row - 1) (max (?row - 3) (- 1)) (- 1) ?clr (?col + 1) [] [] (r, c) v"
    | (dl) "?clr = PLAYER_COLOR_TOP \<or> king (objs b p)"
      "writes_left ?rd ?h (?row + 1) (min (?row + 3) ROWS) 1 ?clr (?col - 1) [] [] (r, c) v"
    | (dr) "?clr = PLAYER_COLOR_TOP \<or> king (objs b p)"
      "writes_right ?rd ?h (?row + 1) (min (?row + 3) ROWS) 1 ?clr (?col + 1) [] [] (r, c) v"
    by blast
  then show ?thesis
  proof cases
    case ul
    from writes_rows(1) [OF ul(2)] ul(1) show ?thesis
      by auto
  next
    case ur
    from writes_rows(2) [OF ur(2)] ur(1) show ?thesis
      by auto
  next
    case dl
    from writes_rows(1) [OF dl(2)] dl(1) show ?thesis
      by auto
  next
    case dr
    from writes_rows(2) [OF dr(2)] dr(1) show ?thesis
      by auto
  qed
qed

text \<open>The bottom piece on (4, 1) of \<open>up_to_row0\<close> gets the destination (2, 3), two rows up.\<close>

theorem moves_follow_direction_witness:
  "\<exists>m. get_valid_moves up_to_row0 1 = Inr m \<and> m (2, 3) = Some [2] \<and>
       \<not> king (objs up_to_row0 1) \<and> color (objs up_to_row0 1) = PLAYER_COLOR_BOTTOM \<and>
       row (objs up_to_row0 1) = 4 \<and> (2::int) < row (objs up_to_row0 1)"
proof -
  from up_to_row0_moves obtain m where
    m: "get_valid_moves up_to_row0 1 = Inr m" "m (2, 3) = Some [2]"
    by (auto split: sum.splits)
  have p: "\<not> king (objs up_to_row0 1) \<and> color (objs up_to_row0 1) = PLAYER_COLOR_BOTTOM \<and>
           row (objs up_to_row0 1) = 4"
    by code_simp
  with moves_follow_direction [OF m] m show ?thesis
    by auto
qed

text \<open>A king alone on (3, 2) gets destinations on the rows 2 and 4.\<close>

lemma king_moves_both_ways:
  "case get_valid_moves lone_king 1 of
     Inl e \<Rightarrow> False
   | Inr m \<Rightarrow> m (2, 1) = Some [] \<and> m (2, 3) = Some [] \<and> m (4, 1) = Some [] \<and> m (4, 3) = Some []"
  by code_simp

subsection \<open>The first two rows of a call\<close>

lemma writes_in_range:
  shows "writes_left rd h r stop step clr left skipped lst k v \<Longrightarrow> in_range r stop step"
    and "writes_right rd h r stop step clr right skipped lst k v \<Longrightarrow> in_range r stop step"
  by (erule writes_left.cases writes_right.cases; simp)+

text \<open>
  What a continuation writes when its range has at most two rows: the square behind an
  opponent piece at its first row, with that piece in front of the one jumped before, or
  entries at least three rows on.
\<close>

lemma continuation_left:
  assumes w: "writes_left rd h r stop step clr left [a] [] k v"
    and short: "step = 1 \<and> stop \<le> r + 2 \<or> step = - 1 \<and> r - 2 \<le> stop"
  shows "(\<exists>x. rd r left = Inr (Some x) \<and> color (h x) \<noteq> clr \<and> rd (r + step) (left - 1) = Inr None \<and>
              k = (r + step, left - 1) \<and> v = [x, a]) \<or>
         (step = 1 \<and> r + 3 \<le> fst k \<or> step = - 1 \<and> fst k \<le> r - 3)"
  using w
proof (cases rule: writes_left.cases)
  case land_left
  then show ?thesis by simp
next
  case go_on_left_left
  then show ?thesis by simp
next
  case go_on_left_right
  then show ?thesis by simp
next
  case (pass_left x)
  from pass_left(6) show ?thesis
  proof (cases rule: writes_left.cases)
    case land_left
    with pass_left show ?thesis by (simp add: HOL.induct_false_def)
  next
    case go_on_left_left
    from continuation_rows(1) [OF go_on_left_left(6)] short show ?thesis
      by auto
  next
    case go_on_left_right
    from continuation_rows(2) [OF go_on_left_right(6)] short show ?thesis
      by auto
  next
    case (pass_left y)
    from writes_in_range(1) [OF pass_left(6)] short show ?thesis
      by auto
  qed
qed


lemma continuation_right:
  assumes w: "writes_right rd h r stop step clr right [a] [] k v"
    and short: "step = 1 \<and> stop \<le> r + 2 \<or> step = - 1 \<and> r - 2 \<le> stop"
  shows "(\<exists>x. rd r right = Inr (Some x) \<and> color (h x) \<noteq> clr \<and> rd (r + step) (right + 1) = Inr None \<and>
              k = (r + step, right + 1) \<and> v = [x, a]) \<or>
         (step = 1 \<and> r + 3 \<le> fst k \<or> step = - 1 \<and> fst k \<le> r - 3)"
  using w
proof (cases rule: writes_right.cases)
  case land_right
  then show ?thesis by simp
next
  case go_on_right_left
  then show ?thesis by simp
next
  case go_on_right_right
  then show ?thesis by simp
next
  case (pass_right x)
  from pass_right(6) show ?thesis
  proof (cases rule: writes_right.cases)
    case land_right
    with pass_right show ?thesis by (simp add: HOL.induct_false_def)
  next
    case go_on_right_left
    from continuation_rows(1) [OF go_on_right_left(6)] short show ?thesis
      by auto
  next
    case go_on_right_right
    from continuation_rows(2) [OF go_on_right_right(6)] short show ?thesis
      by auto
  next
    case (pass_right y)
    from writes_in_range(2) [OF pass_right(6)] short show ?thesis
      by auto
  qed
qed

text \<open>
  What a first call writes when its range has at most two rows: the adjacent square when
  it is empty; else, beyond an opponent piece and an empty square behind it, that square
  with the piece as capture list, and what the two continuations from there write.
\<close>

lemma first_left:
  assumes w: "writes_left rd h r stop step clr left [] [] k v"
    and short: "step = 1 \<and> stop \<le> r + 2 \<or> step = - 1 \<and> r - 2 \<le> stop"
  shows "(k = (r, left) \<and> v = [] \<and> rd r left = Inr None) \<or>
         (\<exists>a. rd r left = Inr (Some a) \<and> color (h a) \<noteq> clr \<and> rd (r + step) (left - 1) = Inr None \<and>
            (k = (r + step, left - 1) \<and> v = [a] \<or>
             writes_left rd h (r + step + step) (ahead step (r + step)) step clr (left - 1 - 1) [a] [] k v \<or>
             writes_right rd h (r + step + step) (ahead step (r + step)) step clr (left - 1 + 1) [a] [] k v))"
  using w
proof (cases rule: writes_left.cases)
  case land_left
  then show ?thesis by simp
next
  case go_on_left_left
  then show ?thesis by simp
next
  case go_on_left_right
  then show ?thesis by simp
next
  case (pass_left a)
  from pass_left(6) show ?thesis
  proof (cases rule: writes_left.cases)
    case land_left
    with pass_left show ?thesis by (simp add: HOL.induct_false_def)
  next
    case go_on_left_left
    with pass_left show ?thesis by simp
  next
    case go_on_left_right
    with pass_left show ?thesis by simp
  next
    case (pass_left y)
    from writes_in_range(1) [OF pass_left(6)] short show ?thesis
      by auto
  qed
qed

lemma first_right:
  assumes w: "writes_right rd h r stop step clr right [] [] k v"
    and short: "step = 1 \<and> stop \<le> r + 2 \<or> step = - 1 \<and> r - 2 \<le> stop"
  shows "(k = (r, right) \<and> v = [] \<and> rd r right = Inr None) \<or>
         (\<exists>a. rd r right = Inr (Some a) \<and> color (h a) \<noteq> clr \<and> rd (r + step) (right + 1) = Inr None \<and>
            (k = (r + step, right + 1) \<and> v = [a] \<or>
             writes_left rd h (r + step + step) (ahead step (r + step)) step clr (right + 1 - 1) [a] [] k v \<or>
             writes_right rd h (r + step + step) (ahead step (r + step)) step clr (right + 1 + 1) [a] [] k v))"
  using w
proof (cases rule: writes_right.cases)
  case land_right
  then show ?thesis by simp
next
  case go_on_right_left
  then show ?thesis by simp
next
  case go_on_right_right
  then show ?thesis by simp
next
  case (pass_right a)
  from pass_right(6) show ?thesis
  proof (cases rule: writes_right.cases)
    case land_right
    with pass_right show ?thesis by (simp add: HOL.induct_false_def)
  next
    case go_on_right_left
    with pass_right show ?thesis by simp
  next
    case go_on_right_right
    with pass_right show ?thesis by simp
  next
    case (pass_right y)
    from writes_in_range(2) [OF pass_right(6)] short show ?thesis
      by auto
  qed
qed

subsection \<open>Destinations on row 0\<close>

lemma upward_continuation_rows:
  assumes "traverse_left rd h start (max (r - 3) 0) (- 1) clr cl skipped = Inr m \<or>
           traverse_right rd h start (max (r - 3) 0) (- 1) clr cl skipped = Inr m"
    and "m k = Some v"
  shows "1 \<le> fst k"
proof -
  from assms(1) show ?thesis
  proof
    assume "traverse_left rd h start (max (r - 3) 0) (- 1) clr cl skipped = Inr m"
    from traverse_writes(1) [OF this [unfolded traverse_left_def] assms(2)]
    have "writes_left rd h start (max (r - 3) 0) (- 1) clr cl skipped [] k v" .
    from writes_rows(1) [OF this] show ?thesis
      by auto
  next
    assume "traverse_right rd h start (max (r - 3) 0) (- 1) clr cl skipped = Inr m"
    from traverse_writes(2) [OF this [unfolded traverse_right_def] assms(2)]
    have "writes_right rd h start (max (r - 3) 0) (- 1) clr cl skipped [] k v" .
    from writes_rows(2) [OF this] show ?thesis
      by auto
  qed
qed

lemma row0_from_above:
  assumes short: "r - 2 \<le> stop"
  shows "writes_left rd h r stop (- 1) clr left [] [] (0, c) v \<Longrightarrow>
           r = 0 \<and> v = [] \<or> r = 1 \<and> (\<exists>a. v = [a])"
    and "writes_right rd h r stop (- 1) clr right [] [] (0, c) v \<Longrightarrow>
           r = 0 \<and> v = [] \<or> r = 1 \<and> (\<exists>a. v = [a])"
proof -
  have s: "(- 1 :: int) = 1 \<and> stop \<le> r + 2 \<or> (- 1 :: int) = - 1 \<and> r - 2 \<le> stop"
    using short by simp
  {
    assume w: "writes_left rd h r stop (- 1) clr left [] [] (0, c) v"
    from first_left [OF w s] show "r = 0 \<and> v = [] \<or> r = 1 \<and> (\<exists>a. v = [a])"
    proof (elim disjE exE conjE)
      fix a
      assume "writes_left rd h (r + - 1 + - 1) (ahead (- 1) (r + - 1)) (- 1) clr (left - 1 - 1) [a] [] (0, c) v"
      from writes_rows(1) [OF this] show ?thesis by auto
    next
      fix a
      assume "writes_right rd h (r + - 1 + - 1) (ahead (- 1) (r + - 1)) (- 1) clr (left - 1 + 1) [a] [] (0, c) v"
      from writes_rows(2) [OF this] show ?thesis by auto
    qed auto
  }
  {
    assume w: "writes_right rd h r stop (- 1) clr right [] [] (0, c) v"
    from first_right [OF w s] show "r = 0 \<and> v = [] \<or> r = 1 \<and> (\<exists>a. v = [a])"
    proof (elim disjE exE conjE)
      fix a
      assume "writes_left rd h (r + - 1 + - 1) (ahead (- 1) (r + - 1)) (- 1) clr (right + 1 - 1) [a] [] (0, c) v"
      from writes_rows(1) [OF this] show ?thesis by auto
    next
      fix a
      assume "writes_right rd h (r + - 1 + - 1) (ahead (- 1) (r + - 1)) (- 1) clr (right + 1 + 1) [a] [] (0, c) v"
      from writes_rows(2) [OF this] show ?thesis by auto
    qed auto
  }
qed


subsection \<open>Capture lists\<close>

lemma chain_step:
  "get_piece b r c = Inr None \<Longrightarrow> r = pr + 1 \<or> r = pr - 1 \<Longrightarrow> c = pc + 1 \<or> c = pc - 1 \<Longrightarrow>
     captured_on_chain b clr (pr, pc) (r, c) []"
  by (simp add: captured_on_chain_def)

lemma chain_one:
  "jump b clr (pr, pc) a (r, c) \<Longrightarrow> captured_on_chain b clr (pr, pc) (r, c) [a]"
  by (simp add: captured_on_chain_def)

lemma chain_two:
  "jump b clr (pr, pc) a (mr, mc) \<Longrightarrow> jump b clr (mr, mc) x (r, c) \<Longrightarrow> r - mr = mr - pr \<Longrightarrow>
     captured_on_chain b clr (pr, pc) (r, c) [x, a]"
  unfolding captured_on_chain_def by (intro disjI2) auto

lemma jump_by:
  "get_cell (board b) mr mc = Inr (Some a) \<Longrightarrow> color (objs b a) \<noteq> clr \<Longrightarrow>
   get_cell (board b) r1 c1 = Inr None \<Longrightarrow>
   r1 = r0 + 2 \<and> mr = r0 + 1 \<or> r1 = r0 - 2 \<and> mr = r0 - 1 \<Longrightarrow>
   c1 = c0 + 2 \<and> mc = c0 + 1 \<or> c1 = c0 - 2 \<and> mc = c0 - 1 \<Longrightarrow>
   jump b clr (r0, c0) a (r1, c1)"
  by (auto simp: jump_def get_piece_def)

lemma first_left_chain:
  assumes w: "writes_left (get_cell (board b)) (objs b) (pr + s) stop s clr (pc - 1) [] [] (r, c) v"
    and s: "s = 1 \<or> s = - 1"
    and short: "s = 1 \<and> stop \<le> pr + 3 \<or> s = - 1 \<and> pr - 3 \<le> stop"
    and near: "\<bar>r - pr\<bar> \<le> 4"
  shows "captured_on_chain b clr (pr, pc) (r, c) v"
proof -
  let ?rd = "get_cell (board b)"
  have short1: "s = 1 \<and> stop \<le> pr + s + 2 \<or> s = - 1 \<and> pr + s - 2 \<le> stop"
    using short by auto
  have short2: "s = 1 \<and> ahead s (pr + s + s) \<le> pr + s + s + s + 2 \<or>
                s = - 1 \<and> pr + s + s + s - 2 \<le> ahead s (pr + s + s)"
    using s by auto
  from first_left [OF w short1] show ?thesis
  proof (elim disjE exE conjE)
    assume "(r, c) = (pr + s, pc - 1)" "v = []" "?rd (pr + s) (pc - 1) = Inr None"
    with s show ?thesis
      by (auto simp: get_piece_def intro!: chain_step)
  next
    fix a
    assume a: "?rd (pr + s) (pc - 1) = Inr (Some a)" "color (objs b a) \<noteq> clr"
      and l: "?rd (pr + s + s) (pc - 1 - 1) = Inr None"
      and k: "(r, c) = (pr + s + s, pc - 1 - 1)" "v = [a]"
    have "jump b clr (pr, pc) a (pr + s + s, pc - 1 - 1)"
      using a l by (rule jump_by) (use s in auto)
    with k show ?thesis
      by (simp add: chain_one)
  next
    fix a
    assume a: "?rd (pr + s) (pc - 1) = Inr (Some a)" "color (objs b a) \<noteq> clr"
      and l: "?rd (pr + s + s) (pc - 1 - 1) = Inr None"
      and w2: "writes_left ?rd (objs b) (pr + s + s + s) (ahead s (pr + s + s)) s clr (pc - 1 - 1 - 1)
                 [a] [] (r, c) v"
    have j1: "jump b clr (pr, pc) a (pr + s + s, pc - 1 - 1)"
      using a l by (rule jump_by) (use s in auto)
    from continuation_left [OF w2 short2] near s
    obtain x where x: "?rd (pr + s + s + s) (pc - 1 - 1 - 1) = Inr (Some x)" "color (objs b x) \<noteq> clr"
      and l2: "?rd (pr + s + s + s + s) (pc - 1 - 1 - 1 - 1) = Inr None"
      and k: "(r, c) = (pr + s + s + s + s, pc - 1 - 1 - 1 - 1)" "v = [x, a]"
      by auto
    have "jump b clr (pr + s + s, pc - 1 - 1) x (pr + s + s + s + s, pc - 1 - 1 - 1 - 1)"
      using x l2 by (rule jump_by) (use s in auto)
    with j1 k show ?thesis
      by (simp add: chain_two)
  next
    fix a
    assume a: "?rd (pr + s) (pc - 1) = Inr (Some a)" "color (objs b a) \<noteq> clr"
      and l: "?rd (pr + s + s) (pc - 1 - 1) = Inr None"
      and w2: "writes_right ?rd (objs b) (pr + s + s + s) (ahead s (pr + s + s)) s clr (pc - 1 - 1 + 1)
                 [a] [] (r, c) v"
    have j1: "jump b clr (pr, pc) a (pr + s + s, pc - 1 - 1)"
      using a l by (rule jump_by) (use s in auto)
    from continuation_right [OF w2 short2] near s
    obtain x where x: "?rd (pr + s + s + s) (pc - 1 - 1 + 1) = Inr (Some x)" "color (objs b x) \<noteq> clr"
      and l2: "?rd (pr + s + s + s + s) (pc - 1 - 1 + 1 + 1) = Inr None"
      and k: "(r, c) = (pr + s + s + s + s, pc - 1 - 1 + 1 + 1)" "v = [x, a]"
      by auto
    have "jump b clr (pr + s + s, pc - 1 - 1) x (pr + s + s + s + s, pc - 1 - 1 + 1 + 1)"
      using x l2 by (rule jump_by) (use s in auto)
    with j1 k show ?thesis
      by (simp add: chain_two)
  qed
qed

lemma first_right_chain:
  assumes w: "writes_right (get_cell (board b)) (objs b) (pr + s) stop s clr (pc + 1) [] [] (r, c) v"
    and s: "s = 1 \<or> s = - 1"
    and short: "s = 1 \<and> stop \<le> pr + 3 \<or> s = - 1 \<and> pr - 3 \<le> stop"
    and near: "\<bar>r - pr\<bar> \<le> 4"
  shows "captured_on_chain b clr (pr, pc) (r, c) v"
proof -
  let ?rd = "get_cell (board b)"
  have short1: "s = 1 \<and> stop \<le> pr + s + 2 \<or> s = - 1 \<and> pr + s - 2 \<le> stop"
    using short by auto
  have short2: "s = 1 \<and> ahead s (pr + s + s) \<le> pr + s + s + s + 2 \<or>
                s = - 1 \<and> pr + s + s + s - 2 \<le> ahead s (pr + s + s)"
    using s by auto
  from first_right [OF w short1] show ?thesis
  proof (elim disjE exE conjE)
    assume "(r, c) = (pr + s, pc + 1)" "v = []" "?rd (pr + s) (pc + 1) = Inr None"
    with s show ?thesis
      by (auto simp: get_piece_def intro!: chain_step)
  next
    fix a
    assume a: "?rd (pr + s) (pc + 1) = Inr (Some a)" "color (objs b a) \<noteq> clr"
      and l: "?rd (pr + s + s) (pc + 1 + 1) = Inr None"
      and k: "(r, c) = (pr + s + s, pc + 1 + 1)" "v = [a]"
    have "jump b clr (pr, pc) a (pr + s + s, pc + 1 + 1)"
      using a l by (rule jump_by) (use s in auto)
    with k show ?thesis
      by (simp add: chain_one)
  next
    fix a
    assume a: "?rd (pr + s) (pc + 1) = Inr (Some a)" "color (objs b a) \<noteq> clr"
      and l: "?rd (pr + s + s) (pc + 1 + 1) = Inr None"
      and w2: "writes_left ?rd (objs b) (pr + s + s + s) (ahead s (pr + s + s)) s clr (pc + 1 + 1 - 1)
                 [a] [] (r, c) v"
    have j1: "jump b clr (pr, pc) a (pr + s + s, pc + 1 + 1)"
      using a l by (rule jump_by) (use s in auto)
    from continuation_left [OF w2 short2] near s
    obtain x where x: "?rd (pr + s + s + s) (pc + 1 + 1 - 1) = Inr (Some x)" "color (objs b x) \<noteq> clr"
      and l2: "?rd (pr + s + s + s + s) (pc + 1 + 1 - 1 - 1) = Inr None"
      and k: "(r, c) = (pr + s + s + s + s, pc + 1 + 1 - 1 - 1)" "v = [x, a]"
      by auto
    have "jump b clr (pr + s + s, pc + 1 + 1) x (pr + s + s + s + s, pc + 1 + 1 - 1 - 1)"
      using x l2 by (rule jump_by) (use s in auto)
    with j1 k show ?thesis
      by (simp add: chain_two)
  next
    fix a
    assume a: "?rd (pr + s) (pc + 1) = Inr (Some a)" "color (objs b a) \<noteq> clr"
      and l: "?rd (pr + s + s) (pc + 1 + 1) = Inr None"
      and w2: "writes_right ?rd (objs b) (pr + s + s + s) (ahead s (pr + s + s)) s clr (pc + 1 + 1 + 1)
                 [a] [] (r, c) v"
    have j1: "jump b clr (pr, pc) a (pr + s + s, pc + 1 + 1)"
      using a l by (rule jump_by) (use s in auto)
    from continuation_right [OF w2 short2] near s
    obtain x where x: "?rd (pr + s + s + s) (pc + 1 + 1 + 1) = Inr (Some x)" "color (objs b x) \<noteq> clr"
      and l2: "?rd (pr + s + s + s + s) (pc + 1 + 1 + 1 + 1) = Inr None"
      and k: "(r, c) = (pr + s + s + s + s, pc + 1 + 1 + 1 + 1)" "v = [x, a]"
      by auto
    have "jump b clr (pr + s + s, pc + 1 + 1) x (pr + s + s + s + s, pc + 1 + 1 + 1 + 1)"
      using x l2 by (rule jump_by) (use s in auto)
    with j1 k show ?thesis
      by (simp add: chain_two)
  qed
qed



text \<open>
  C3 (as amended). For every destination that \<^verbatim>\<open>get_valid_moves(piece)\<close> returns at most
  four rows from the piece, that is within two jumps, the associated list holds exactly
  the opponent pieces jumped on a chain from the piece's square to that destination, the
  piece jumped last in front: the empty list for a step to an adjacent empty square,
  \<open>[a]\<close> for a jump over \<open>a\<close>, and \<open>[x, a]\<close> for a jump over \<open>a\<close> followed by a jump over
  \<open>x\<close>.
\<close>

theorem captures_last_jumped_first:
  assumes "get_valid_moves b p = Inr m" and "m (r, c) = Some v"
    and "\<bar>r - row (objs b p)\<bar> \<le> 4"
  shows "captured_on_chain b (color (objs b p)) (row (objs b p), col (objs b p)) (r, c) v"
proof -
  let ?rd = "get_cell (board b)" and ?h = "objs b"
  let ?row = "row (objs b p)" and ?col = "col (objs b p)" and ?clr = "color (objs b p)"
  have up: "(- 1 :: int) = 1 \<or> (- 1 :: int) = - 1"
    and up_short: "(- 1 :: int) = 1 \<and> max (?row - 3) (- 1) \<le> ?row + 3 \<or>
                   (- 1 :: int) = - 1 \<and> ?row - 3 \<le> max (?row - 3) (- 1)"
    and down: "(1 :: int) = 1 \<or> (1 :: int) = - 1"
    and down_short: "(1 :: int) = 1 \<and> min (?row + 3) ROWS \<le> ?row + 3 \<or>
                     (1 :: int) = - 1 \<and> ?row - 3 \<le> min (?row + 3) ROWS"
    by simp_all
  from valid_moves_writes [OF assms(1) [unfolded get_valid_moves_def] assms(2)]
  consider
    (ul) "writes_left ?rd ?h (?row + - 1) (max (?row - 3) (- 1)) (- 1) ?clr (?col - 1) [] [] (r, c) v"
    | (ur) "writes_right ?rd ?h (?row + - 1) (max (?row - 3) (- 1)) (- 1) ?clr (?col + 1) [] [] (r, c) v"
    | (dl) "writes_left ?rd ?h (?row + 1) (min (?row + 3) ROWS) 1 ?clr (?col - 1) [] [] (r, c) v"
    | (dr) "writes_right ?rd ?h (?row + 1) (min (?row + 3) ROWS) 1 ?clr (?col + 1) [] [] (r, c) v"
    by auto
  then show ?thesis
  proof cases
    case ul
    then show ?thesis
      using up up_short assms(3) by (rule first_left_chain)
  next
    case ur
    then show ?thesis
      using up up_short assms(3) by (rule first_right_chain)
  next
    case dl
    then show ?thesis
      using down down_short assms(3) by (rule first_left_chain)
  next
    case dr
    then show ?thesis
      using down down_short assms(3) by (rule first_right_chain)
  qed
qed

lemma down_to_row7_chain:
  "jump down_to_row7 PLAYER_COLOR_TOP (3, 1) 2 (5, 3) \<and>
   jump down_to_row7 PLAYER_COLOR_TOP (5, 3) 3 (7, 5) \<and>
   captures_at down_to_row7 1 (7, 5) = Inr (Some [3, 2]) \<and>
   color (objs down_to_row7 1) = PLAYER_COLOR_TOP \<and>
   row (objs down_to_row7 1) = 3 \<and> col (objs down_to_row7 1) = 1"
  by code_simp

text \<open>
  The top piece of \<open>down_to_row7\<close> reaches (7, 5) over the piece 2 and then the piece 3,
  and the list is \<open>[3, 2]\<close>.
\<close>

theorem captures_last_jumped_first_witness:
  "\<exists>m. get_valid_moves down_to_row7 1 = Inr m \<and> m (7, 5) = Some [3, 2] \<and>
       \<bar>7 - row (objs down_to_row7 1)\<bar> \<le> 4 \<and>
       captured_on_chain down_to_row7 PLAYER_COLOR_TOP (3, 1) (7, 5) [3, 2]"
proof -
  from down_to_row7_chain obtain m where
    m: "get_valid_moves down_to_row7 1 = Inr m" "m (7, 5) = Some [3, 2]"
    by (auto simp: captures_at_def split: sum.splits)
  have near: "\<bar>7 - row (objs down_to_row7 1)\<bar> \<le> 4"
    using down_to_row7_chain by simp
  from captures_last_jumped_first [OF m near] down_to_row7_chain m near show ?thesis
    by auto
qed

text \<open>
  C3 as stated fails: in \<open>down_to_row7\<close> the piece jumps over the piece 2 first and over
  the piece 3 second, and the list under (7, 5) is \<open>[3, 2]\<close>, not \<open>[2, 3]\<close>.
\<close>

theorem capture_order_counterexample:
  "jump down_to_row7 PLAYER_COLOR_TOP (3, 1) 2 (5, 3) \<and>
   jump down_to_row7 PLAYER_COLOR_TOP (5, 3) 3 (7, 5) \<and>
   captures_at down_to_row7 1 (7, 5) = Inr (Some [3, 2]) \<and>
   captures_at down_to_row7 1 (7, 5) \<noteq> Inr (Some [2, 3])"
  by code_simp

text \<open>
  C1 at a failing input. In \<open>up_to_row0\<close> the bottom piece on (4, 1) has two consecutive
  jumps, over the piece 2 to (2, 3) and from there over the piece 3 to (0, 5);
  \<^verbatim>\<open>get_valid_moves\<close> returns the first landing square with \<open>[2]\<close> and has no entry for
  (0, 5).
\<close>

theorem double_jump_to_row0_missed:
  "color (objs up_to_row0 1) = PLAYER_COLOR_BOTTOM \<and>
   row (objs up_to_row0 1) = 4 \<and> col (objs up_to_row0 1) = 1 \<and>
   jump up_to_row0 PLAYER_COLOR_BOTTOM (4, 1) 2 (2, 3) \<and>
   jump up_to_row0 PLAYER_COLOR_BOTTOM (2, 3) 3 (0, 5) \<and>
   captures_at up_to_row0 1 (2, 3) = Inr (Some [2]) \<and>
   captures_at up_to_row0 1 (0, 5) = Inr None"
  by code_simp

text \<open>
  C10. A destination on row 0 that \<^verbatim>\<open>get_valid_moves\<close> returns for a piece on the board is
  reached by a step from row 1 (empty capture list) or by one jump from row 2 (one
  captured piece), never by two or more jumps: a continuation after an upward capture,
  whose stop row is \<open>max (r - 3) 0\<close>, writes entries on rows from 1 on only. The downward
  mirror does reach the last row by two jumps: in \<open>down_to_row7\<close> the destination (7, 5)
  has the capture list \<open>[3, 2]\<close>.
\<close>

theorem no_chain_reaches_row0:
  assumes "get_valid_moves b p = Inr m" and "m (0, c) = Some v" and "0 \<le> row (objs b p)"
  shows "(row (objs b p) = 1 \<and> v = [] \<or> row (objs b p) = 2 \<and> (\<exists>a. v = [a])) \<and>
         (\<forall>rd h start r clr cl skipped m' k v'.
            (traverse_left rd h start (max (r - 3) 0) (- 1) clr cl skipped = Inr m' \<or>
             traverse_right rd h start (max (r - 3) 0) (- 1) clr cl skipped = Inr m') \<and>
            m' k = Some v' \<longrightarrow> 1 \<le> fst k) \<and>
         captures_at down_to_row7 1 (7, 5) = Inr (Some [3, 2])"
proof -
  let ?rd = "get_cell (board b)" and ?h = "objs b"
  let ?row = "row (objs b p)" and ?col = "col (objs b p)" and ?clr = "color (objs b p)"
  have short: "?row - 1 - 2 \<le> max (?row - 3) (- 1)"
    by simp
  from valid_moves_writes [OF assms(1) [unfolded get_valid_moves_def] assms(2)]
  consider
    (ul) "writes_left ?rd ?h (?row - 1) (max (?row - 3) (- 1)) (- 1) ?clr (?col - 1) [] [] (0, c) v"
    | (ur) "writes_right ?rd ?h (?row - 1) (max (?row - 3) (- 1)) (- 1) ?clr (?col + 1) [] [] (0, c) v"
    | (dl) "writes_left ?rd ?h (?row + 1) (min (?row + 3) ROWS) 1 ?clr (?col - 1) [] [] (0, c) v"
    | (dr) "writes_right ?rd ?h (?row + 1) (min (?row + 3) ROWS) 1 ?clr (?col + 1) [] [] (0, c) v"
    by blast
  then have "?row = 1 \<and> v = [] \<or> ?row = 2 \<and> (\<exists>a. v = [a])"
  proof cases
    case ul
    from row0_from_above(1) [OF short ul] show ?thesis
      by auto
  next
    case ur
    from row0_from_above(2) [OF short ur] show ?thesis
      by auto
  next
    case dl
    from writes_rows(1) [OF dl] assms(3) show ?thesis
      by simp
  next
    case dr
    from writes_rows(2) [OF dr] assms(3) show ?thesis
      by simp
  qed
  moreover have "1 \<le> fst k"
    if "(traverse_left rd h start (max (r - 3) 0) (- 1) clr cl skipped = Inr m' \<or>
         traverse_right rd h start (max (r - 3) 0) (- 1) clr cl skipped = Inr m') \<and> m' k = Some v'"
    for rd h start r clr cl skipped m' v' and k :: "int \<times> int"
    using that upward_continuation_rows [of rd h start r clr cl skipped m' k v'] by blast
  moreover have "captures_at down_to_row7 1 (7, 5) = Inr (Some [3, 2])"
    using down_to_row7_chain by simp
  ultimately show ?thesis
    by blast
qed

lemma near_row0_moves:
  "captures_at near_row0 1 (0, 3) = Inr (Some [2]) \<and> row (objs near_row0 1) = 2"
  by code_simp

text \<open>The bottom piece of \<open>near_row0\<close> jumps from (2, 1) to (0, 3).\<close>

theorem no_chain_reaches_row0_witness:
  "\<exists>m. get_valid_moves near_row0 1 = Inr m \<and> m (0, 3) = Some [2] \<and>
       (0::int) \<le> row (objs near_row0 1) \<and> row (objs near_row0 1) = 2"
proof -
  from near_row0_moves obtain m where
    m: "get_valid_moves near_row0 1 = Inr m" "m (0, 3) = Some [2]"
    by (auto simp: captures_at_def split: sum.splits)
  have "0 \<le> row (objs near_row0 1)"
    using near_row0_moves by simp
  from no_chain_reaches_row0 [OF m this] m this show ?thesis
    by auto
qed

subsection \<open>Counting the pieces of a grid\<close>

lemma list_all_enumerate:
  "list_all P (enumerate n xs) \<longleftrightarrow> (\<forall>i<length xs. P (n + i, xs ! i))"
  by (simp add: list_all_length nth_enumerate_eq)

lemma positions_ok_nth:
  "positions_ok b \<longleftrightarrow>
     (\<forall>i<length (board b). \<forall>j<length (board b ! i). \<forall>p.
        board b ! i ! j = Some p \<longrightarrow> row (objs b p) = int i \<and> col (objs b p) = int j)"
  unfolding positions_ok_def list_all_enumerate
  by (auto split: option.splits)

lemma length_filter_update:
  assumes "j < length xs"
  shows "int (length (filter P (xs[j := v]))) =
         int (length (filter P xs)) - (if P (xs ! j) then 1 else 0) + (if P v then 1 else 0)"
proof -
  let ?l = "take j xs" and ?r = "drop (Suc j) xs"
  have whole: "?l @ xs ! j # ?r = xs"
    using assms by (rule id_take_nth_drop [symmetric])
  have "length (filter P xs) = length (filter P (?l @ xs ! j # ?r))"
    by (simp only: whole)
  then have old: "length (filter P xs) =
      length (filter P ?l) + (if P (xs ! j) then 1 else 0) + length (filter P ?r)"
    by simp
  have "xs[j := v] = ?l @ v # ?r"
    using assms by (rule upd_conv_take_nth_drop)
  then have "length (filter P (xs[j := v])) =
      length (filter P ?l) + (if P v then 1 else 0) + length (filter P ?r)"
    by simp
  with old show ?thesis
    by simp
qed

lemma length_map_filter_update:
  assumes "j < length xs"
  shows "int (length (List.map_filter f (xs[j := v]))) =
         int (length (List.map_filter f xs)) - (if f (xs ! j) \<noteq> None then 1 else 0)
           + (if f v \<noteq> None then 1 else 0)"
  using length_filter_update [OF assms, of "\<lambda>x. f x \<noteq> None" v]
  by (simp add: map_filter_def)

lemma length_concat_update:
  assumes "i < length xss"
  shows "int (length (concat (map f (xss[i := ys])))) =
         int (length (concat (map f xss))) - int (length (f (xss ! i))) + int (length (f ys))"
proof -
  let ?l = "take i xss" and ?r = "drop (Suc i) xss"
  have whole: "?l @ xss ! i # ?r = xss"
    using assms by (rule id_take_nth_drop [symmetric])
  have "length (concat (map f xss)) = length (concat (map f (?l @ xss ! i # ?r)))"
    by (simp only: whole)
  then have old: "length (concat (map f xss)) =
      length (concat (map f ?l)) + length (f (xss ! i)) + length (concat (map f ?r))"
    by simp
  have "xss[i := ys] = ?l @ ys # ?r"
    using assms by (rule upd_conv_take_nth_drop)
  then have "length (concat (map f (xss[i := ys]))) =
      length (concat (map f ?l)) + length (f ys) + length (concat (map f ?r))"
    by simp
  with old show ?thesis
    by simp
qed

text \<open>The pieces of one colour on a grid, counted, and the effect of writing one cell.\<close>

lemma count_cell_update:
  assumes "i < length g" and "j < length (g ! i)"
  shows "int (length (concat (map (List.map_filter f) (g[i := (g ! i)[j := v]])))) =
         int (length (concat (map (List.map_filter f) g)))
           - (if f (g ! i ! j) \<noteq> None then 1 else 0) + (if f v \<noteq> None then 1 else 0)"
  using length_concat_update [OF assms(1), of "List.map_filter f" "(g ! i)[j := v]"]
    length_map_filter_update [OF assms(2), of f v]
  by simp

subsection \<open>The invariant under the mutations\<close>

lemma of_color_same:
  "(\<And>q. color (objs b' q) = color (objs b q)) \<Longrightarrow> of_color b' clr = of_color b clr"
  by (rule ext) (simp split: option.splits)

lemma positions_ok_cells:
  assumes "grid_ok (board b)"
  shows "positions_ok b \<longleftrightarrow>
     (\<forall>r c p. 0 \<le> r \<and> r < ROWS \<and> 0 \<le> c \<and> c < COLS \<and> board b ! nat r ! nat c = Some p \<longrightarrow>
        row (objs b p) = r \<and> col (objs b p) = c)"
proof
  assume ok: "positions_ok b"
  show "\<forall>r c p. 0 \<le> r \<and> r < ROWS \<and> 0 \<le> c \<and> c < COLS \<and> board b ! nat r ! nat c = Some p \<longrightarrow>
          row (objs b p) = r \<and> col (objs b p) = c"
  proof (intro allI impI, elim conjE)
    fix r c p
    assume rc: "0 \<le> r" "r < ROWS" "0 \<le> c" "c < COLS" and p: "board b ! nat r ! nat c = Some p"
    have "nat r < length (board b)"
      using assms rc by (simp add: grid_ok_length)
    moreover have "nat c < length (board b ! nat r)"
      using grid_ok_nth [OF assms rc(1,2)] rc by simp
    ultimately have "row (objs b p) = int (nat r) \<and> col (objs b p) = int (nat c)"
      using ok p unfolding positions_ok_nth by blast
    with rc show "row (objs b p) = r \<and> col (objs b p) = c"
      by simp
  qed
next
  assume cells: "\<forall>r c p. 0 \<le> r \<and> r < ROWS \<and> 0 \<le> c \<and> c < COLS \<and> board b ! nat r ! nat c = Some p \<longrightarrow>
          row (objs b p) = r \<and> col (objs b p) = c"
  show "positions_ok b"
    unfolding positions_ok_nth
  proof (intro allI impI)
    fix i j p
    assume i: "i < length (board b)" and j: "j < length (board b ! i)"
      and p: "board b ! i ! j = Some p"
    have "int i < ROWS"
      using assms i by (simp add: grid_ok_def)
    moreover from grid_ok_nth [OF assms _ this] j have "int j < COLS"
      by simp
    ultimately show "row (objs b p) = int i \<and> col (objs b p) = int j"
      using cells [rule_format, of "int i" "int j" p] p by simp
  qed
qed

text \<open>Writing one cell of a well-formed grid: the grid stays well-formed, the count moves by one.\<close>

lemma count_after_write:
  assumes ok: "grid_ok (board b)" and rc: "0 \<le> r" "r < ROWS" "0 \<le> c" "c < COLS"
    and g: "board b' = (board b)[nat r := (board b ! nat r)[nat c := v]]"
    and same: "\<And>q. color (objs b' q) = color (objs b q)"
  shows "int (length (get_all_pieces b' clr)) =
         int (length (get_all_pieces b clr))
           - (if of_color b clr (board b ! nat r ! nat c) \<noteq> None then 1 else 0)
           + (if of_color b clr v \<noteq> None then 1 else 0)"
proof -
  have i: "nat r < length (board b)"
    using ok rc by (simp add: grid_ok_length)
  have j: "nat c < length (board b ! nat r)"
    using grid_ok_nth [OF ok rc(1,2)] rc by simp
  show ?thesis
    unfolding get_all_pieces_def g of_color_same [of b' b, OF same]
    by (rule count_cell_update [OF i j])
qed


lemma live_cell:
  assumes "grid_ok (board b)" and "live b p"
  shows "0 \<le> row (objs b p)" "row (objs b p) < ROWS" "0 \<le> col (objs b p)" "col (objs b p) < COLS"
    "board b ! nat (row (objs b p)) ! nat (col (objs b p)) = Some p"
proof -
  show rc: "0 \<le> row (objs b p)" "row (objs b p) < ROWS" "0 \<le> col (objs b p)" "col (objs b p) < COLS"
    using assms(2) by (simp_all add: live_def in_bounds_def)
  from get_cell_in_bounds [OF assms(1) rc] assms(2)
  show "board b ! nat (row (objs b p)) ! nat (col (objs b p)) = Some p"
    by (simp add: live_def)
qed

lemma invariant_remove_one:
  assumes inv: "invariant b" and lv: "live b p"
  defines "g1 \<equiv> (board b)[nat (row (objs b p)) := (board b ! nat (row (objs b p)))[nat (col (objs b p)) := None]]"
  defines "b1 \<equiv> (if color (objs b p) = PLAYER_COLOR_BOTTOM
                   then b\<lparr>board := g1, red_left := red_left b - 1\<rparr>
                   else b\<lparr>board := g1, white_left := white_left b - 1\<rparr>)"
  shows "remove_pieces b (p # ps) = remove_pieces b1 ps"
    and "invariant b1"
    and "q \<noteq> p \<Longrightarrow> live b q \<Longrightarrow> live b1 q"
proof -
  have ok: "grid_ok (board b)" and pos: "positions_ok b"
    and red: "int (length (get_all_pieces b PLAYER_COLOR_BOTTOM)) = red_left b"
    and white: "int (length (get_all_pieces b PLAYER_COLOR_TOP)) = white_left b"
    using inv by (simp_all add: invariant_def)
  note p = live_cell [OF ok lv]
  have o1: "objs b1 = objs b" and gb1: "board b1 = g1"
    by (simp_all add: b1_def)
  have ok1: "grid_ok (board b1)"
    unfolding gb1 g1_def using ok by (rule grid_ok_update)
  have cell1: "board b1 ! nat r ! nat c =
      (if r = row (objs b p) \<and> c = col (objs b p) then None else board b ! nat r ! nat c)"
    if "0 \<le> r" "r < ROWS" "0 \<le> c" "c < COLS" for r c
    unfolding gb1 g1_def using nth_grid_update [OF ok p(1-4) that, of None] .
  show "remove_pieces b (p # ps) = remove_pieces b1 ps"
    using set_cell_in_bounds [OF ok p(1-4), of None]
    by (simp add: b1_def g1_def Let_def)
  have pos1: "positions_ok b1"
    unfolding positions_ok_cells [OF ok1] o1
  proof (intro allI impI, elim conjE)
    fix r c x
    assume rc: "0 \<le> r" "r < ROWS" "0 \<le> c" "c < COLS" and x: "board b1 ! nat r ! nat c = Some x"
    with cell1 [OF rc] have "board b ! nat r ! nat c = Some x"
      by (auto split: if_splits)
    with pos [unfolded positions_ok_cells [OF ok]] rc show "row (objs b x) = r \<and> col (objs b x) = c"
      by blast
  qed
  have counts: "int (length (get_all_pieces b1 clr)) =
      int (length (get_all_pieces b clr)) - (if color (objs b p) = clr then 1 else 0)" for clr
    using count_after_write [OF ok p(1-4), of b1 None clr] p(5)
    by (simp add: gb1 g1_def o1)
  have "int (length (get_all_pieces b1 PLAYER_COLOR_BOTTOM)) = red_left b1"
    "int (length (get_all_pieces b1 PLAYER_COLOR_TOP)) = white_left b1"
    using counts [of PLAYER_COLOR_BOTTOM] counts [of PLAYER_COLOR_TOP] red white
    by (cases "color (objs b p)"; simp add: b1_def)+
  with ok1 pos1 show "invariant b1"
    by (simp add: invariant_def)
  show "live b1 q" if "q \<noteq> p" "live b q"
  proof -
    note q = live_cell [OF ok that(2)]
    from q(5) p(5) that(1) have "\<not> (row (objs b q) = row (objs b p) \<and> col (objs b q) = col (objs b p))"
      by auto
    with cell1 [OF q(1-4)] q(5) have "board b1 ! nat (row (objs b q)) ! nat (col (objs b q)) = Some q"
      by simp
    with get_cell_in_bounds [OF ok1 q(1-4)] q(1-4) show ?thesis
      by (simp add: live_def in_bounds_def o1)
  qed
qed

lemma invariant_remove:
  assumes "invariant b" and "distinct ps" and "\<forall>p\<in>set ps. live b p"
  shows "\<exists>b'. remove_pieces b ps = Inr b' \<and> invariant b'"
  using assms
proof (induction ps arbitrary: b)
  case Nil
  then show ?case by simp
next
  case (Cons p ps)
  let ?g1 = "(board b)[nat (row (objs b p)) := (board b ! nat (row (objs b p)))[nat (col (objs b p)) := None]]"
  let ?b1 = "(if color (objs b p) = PLAYER_COLOR_BOTTOM
              then b\<lparr>board := ?g1, red_left := red_left b - 1\<rparr>
              else b\<lparr>board := ?g1, white_left := white_left b - 1\<rparr>)"
  from Cons.prems have lv: "live b p"
    by simp
  note one = invariant_remove_one [OF Cons.prems(1) lv]
  have "\<forall>q\<in>set ps. live ?b1 q"
  proof
    fix q
    assume "q \<in> set ps"
    with Cons.prems(2,3) have "q \<noteq> p" "live b q"
      by auto
    then show "live ?b1 q"
      by (rule one(3))
  qed
  with Cons.IH [OF one(2)] Cons.prems(2) show ?case
    unfolding one(1) [of ps] by simp
qed


lemma invariant_move:
  assumes inv: "invariant b" and lv: "live b p"
    and rc: "0 \<le> r" "r < ROWS" "0 \<le> c" "c < COLS"
    and empty: "get_cell (board b) r c = Inr None"
  shows "\<exists>b'. move b p r c = Inr b' \<and> invariant b'"
proof -
  let ?pr = "row (objs b p)" and ?pc = "col (objs b p)"
  define g1 where "g1 = (board b)[nat ?pr := (board b ! nat ?pr)[nat ?pc := None]]"
  define g2 where "g2 = g1[nat r := (g1 ! nat r)[nat c := Some p]]"
  define bm where "bm = b\<lparr>board := g1\<rparr>"
  have ok: "grid_ok (board b)" and pos: "positions_ok b"
    and red: "int (length (get_all_pieces b PLAYER_COLOR_BOTTOM)) = red_left b"
    and white: "int (length (get_all_pieces b PLAYER_COLOR_TOP)) = white_left b"
    using inv by (simp_all add: invariant_def)
  note p = live_cell [OF ok lv]
  have src: "get_cell (board b) ?pr ?pc = Inr (Some p)"
    using lv by (simp add: live_def)
  have dest: "board b ! nat r ! nat c = None"
    using get_cell_in_bounds [OF ok rc] empty by simp
  with p(5) have ne: "\<not> (r = ?pr \<and> c = ?pc)"
    by auto
  have ok1: "grid_ok g1"
    unfolding g1_def using ok by (rule grid_ok_update)
  have ok2: "grid_ok g2"
    unfolding g2_def using ok1 by (rule grid_ok_update)
  have sc1: "set_cell (board b) ?pr ?pc None = Inr g1"
    unfolding g1_def using ok p(1-4) by (rule set_cell_in_bounds)
  have sc2: "set_cell g1 r c (Some p) = Inr g2"
    unfolding g2_def using ok1 rc by (rule set_cell_in_bounds)
  have "\<exists>b'. move b p r c = Inr b' \<and> board b' = g2 \<and> (\<forall>q. q \<noteq> p \<longrightarrow> objs b' q = objs b q) \<and>
          row (objs b' p) = r \<and> col (objs b' p) = c \<and> (\<forall>q. color (objs b' q) = color (objs b q)) \<and>
          red_left b' = red_left b \<and> white_left b' = white_left b"
    by (simp add: move_def empty src sc1 sc2 Let_def piece_move_def make_king_def)
  then obtain b' where mv: "move b p r c = Inr b'" and gb': "board b' = g2"
    and others: "\<And>q. q \<noteq> p \<Longrightarrow> objs b' q = objs b q"
    and at: "row (objs b' p) = r" "col (objs b' p) = c"
    and colors: "\<And>q. color (objs b' q) = color (objs b q)"
    and left: "red_left b' = red_left b" "white_left b' = white_left b"
    by blast
  have cell1: "g1 ! nat r' ! nat c' = (if r' = ?pr \<and> c' = ?pc then None else board b ! nat r' ! nat c')"
    if "0 \<le> r'" "r' < ROWS" "0 \<le> c'" "c' < COLS" for r' c'
    unfolding g1_def using nth_grid_update [OF ok p(1-4) that, of None] .
  have cell2: "g2 ! nat r' ! nat c' = (if r' = r \<and> c' = c then Some p else g1 ! nat r' ! nat c')"
    if "0 \<le> r'" "r' < ROWS" "0 \<le> c'" "c' < COLS" for r' c'
    unfolding g2_def using nth_grid_update [OF ok1 rc that, of "Some p"] .
  have pos': "positions_ok b'"
    unfolding positions_ok_cells [OF ok2 [folded gb']] gb'
  proof (intro allI impI, elim conjE)
    fix r' c' x
    assume rc': "0 \<le> r'" "r' < ROWS" "0 \<le> c'" "c' < COLS" and x: "g2 ! nat r' ! nat c' = Some x"
    show "row (objs b' x) = r' \<and> col (objs b' x) = c'"
    proof (cases "r' = r \<and> c' = c")
      case True
      with cell2 [OF rc'] x at show ?thesis
        by simp
    next
      case False
      with cell2 [OF rc'] cell1 [OF rc'] x
      have old: "board b ! nat r' ! nat c' = Some x" and away: "\<not> (r' = ?pr \<and> c' = ?pc)"
        by (auto split: if_splits)
      from pos [unfolded positions_ok_cells [OF ok]] rc' old
      have here: "row (objs b x) = r' \<and> col (objs b x) = c'"
        by blast
      with away have "x \<noteq> p"
        by auto
      with others here show ?thesis
        by simp
    qed
  qed
  have mid: "int (length (get_all_pieces bm clr)) =
      int (length (get_all_pieces b clr)) - (if color (objs b p) = clr then 1 else 0)" for clr
    using count_after_write [OF ok p(1-4), of bm None clr] p(5)
    by (simp add: bm_def g1_def)
  have "g1 ! nat r ! nat c = None"
    using cell1 [OF rc] dest by simp
  then have "int (length (get_all_pieces b' clr)) =
      int (length (get_all_pieces bm clr)) + (if color (objs b p) = clr then 1 else 0)" for clr
    using count_after_write [of bm r c b' "Some p" clr] ok1 rc gb' colors
    by (simp add: bm_def g2_def)
  with mid have "int (length (get_all_pieces b' clr)) = int (length (get_all_pieces b clr))" for clr
    by simp
  with red white left have "int (length (get_all_pieces b' PLAYER_COLOR_BOTTOM)) = red_left b'"
    "int (length (get_all_pieces b' PLAYER_COLOR_TOP)) = white_left b'"
    by simp_all
  with ok2 pos' gb' have "invariant b'"
    by (simp add: invariant_def)
  with mv show ?thesis
    by blast
qed

lemma Board_init_invariant:
  "case Board_init of Inl e \<Rightarrow> False | Inr b \<Rightarrow> invariant b"
  by code_simp

text \<open>
  C8 (as amended). The invariant (a well-formed grid, every piece of the grid stored at
  the cell that holds it, and for each colour as many pieces on the grid as its live
  counter says) holds for the board that \<^verbatim>\<open>Board()\<close> returns; it is kept by
  \<^verbatim>\<open>move(piece, row, col)\<close> when the piece is live at its stored cell and \<open>(row, col)\<close> is an
  empty cell of the board; and it is kept by \<^verbatim>\<open>remove(pieces)\<close> when the pieces are
  pairwise distinct and each is live at its stored cell. Under the invariant no piece
  is held by two cells.
\<close>

theorem invariant_kept:
  "(\<exists>b0. Board_init = Inr b0 \<and> invariant b0) \<and>
   (invariant b \<and> live b p \<and> 0 \<le> r \<and> r < ROWS \<and> 0 \<le> c \<and> c < COLS \<and>
      get_piece b r c = Inr None \<longrightarrow>
      (\<exists>b'. move b p r c = Inr b' \<and> invariant b')) \<and>
   (invariant b \<and> distinct ps \<and> (\<forall>q\<in>set ps. live b q) \<longrightarrow>
      (\<exists>b'. remove_pieces b ps = Inr b' \<and> invariant b')) \<and>
   (invariant b \<and> 0 \<le> r \<and> r < ROWS \<and> 0 \<le> c \<and> c < COLS \<and>
      get_piece b r c = Inr (Some p) \<longrightarrow>
      r = row (objs b p) \<and> c = col (objs b p))"
proof (intro conjI impI)
  show "\<exists>b0. Board_init = Inr b0 \<and> invariant b0"
    using Board_init_invariant by (auto split: sum.splits)
next
  assume "invariant b \<and> live b p \<and> 0 \<le> r \<and> r < ROWS \<and> 0 \<le> c \<and> c < COLS \<and>
      get_piece b r c = Inr None"
  then show "\<exists>b'. move b p r c = Inr b' \<and> invariant b'"
    using invariant_move [of b p r c] by (simp add: get_piece_def)
next
  assume "invariant b \<and> distinct ps \<and> (\<forall>q\<in>set ps. live b q)"
  then show "\<exists>b'. remove_pieces b ps = Inr b' \<and> invariant b'"
    using invariant_remove [of b ps] by simp
next
  assume a: "invariant b \<and> 0 \<le> r \<and> r < ROWS \<and> 0 \<le> c \<and> c < COLS \<and>
      get_piece b r c = Inr (Some p)"
  then have ok: "grid_ok (board b)" and pos: "positions_ok b"
    by (simp_all add: invariant_def)
  from a get_cell_in_bounds [OF ok, of r c] have "board b ! nat r ! nat c = Some p"
    by (simp add: get_piece_def)
  with pos [unfolded positions_ok_cells [OF ok]] a
  show "r = row (objs b p)" "c = col (objs b p)"
    by auto
qed

lemma three_pieces_facts:
  "invariant three_pieces \<and> live three_pieces 1 \<and> live three_pieces 2 \<and> live three_pieces 3 \<and>
   get_piece three_pieces 5 2 = Inr None \<and> get_piece three_pieces 6 1 = Inr (Some 2) \<and>
   row (objs three_pieces 2) = 6 \<and> col (objs three_pieces 2) = 1"
  by code_simp

text \<open>
  In \<open>three_pieces\<close> the piece 2 moves from (6, 1) to the empty square (5, 2), and the
  pieces 1 and 3 are removed.
\<close>

theorem invariant_kept_witness:
  "invariant three_pieces \<and> live three_pieces 2 \<and> get_piece three_pieces 5 2 = Inr None \<and>
   (\<exists>b'. move three_pieces 2 5 2 = Inr b' \<and> invariant b') \<and>
   distinct [1::nat, 3] \<and> live three_pieces 1 \<and> live three_pieces 3 \<and>
   (\<exists>b'. remove_pieces three_pieces [1, 3] = Inr b' \<and> invariant b') \<and>
   get_piece three_pieces 6 1 = Inr (Some 2) \<and>
   row (objs three_pieces 2) = 6 \<and> col (objs three_pieces 2) = 1"
proof -
  note f = three_pieces_facts
  have "(0::int) \<le> 5 \<and> 5 < ROWS \<and> (0::int) \<le> 2 \<and> 2 < COLS"
    by (simp add: ROWS_def COLS_def)
  with invariant_kept [of three_pieces 2 5 2 "[1, 3]"] f show ?thesis
    by simp
qed

text \<open>
  C8 as stated fails. Removing a list that names the live piece 1 twice clears one cell
  and lowers \<^verbatim>\<open>red_left\<close> by two. Moving the captured piece 1 of \<open>after_capture\<close>, whose
  object still says (5, 0), to the empty square (4, 1) carries the piece 2, which stands
  on (5, 0), to (4, 1) without changing its stored position.
\<close>

theorem invariant_lost_counterexample:
  "invariant three_pieces \<and> live three_pieces 1 \<and>
   invariant_broken (remove_pieces three_pieces [1, 1]) \<and>
   invariant after_capture \<and> get_piece after_capture 4 1 = Inr None \<and>
   invariant_broken (move after_capture 1 4 1)"
  by code_simp

text \<open>
  The position \<open>after_capture\<close> arises from \<open>three_pieces\<close> by removing the piece 1 and
  moving the piece 2 to (5, 0).
\<close>

lemma after_capture_reached:
  "case remove_pieces three_pieces [1] of
     Inl e \<Rightarrow> False
   | Inr b1 \<Rightarrow>
       (case move b1 2 5 0 of
          Inl e \<Rightarrow> False
        | Inr b2 \<Rightarrow>
            board b2 = board after_capture \<and>
            map (objs b2) [1, 2, 3] = map (objs after_capture) [1, 2, 3] \<and>
            red_left b2 = red_left after_capture \<and> white_left b2 = white_left after_capture)"
  by code_simp

end
